theory Spec2Isabelle
  imports Complex_Main "HOL-Library.AList"
begin

section \<open>Python values and exceptions\<close>

text \<open>
  The exceptions the modelled code can raise.  A function that may raise returns
  \<open>exc + 'a\<close>, with \<open>Inl\<close> for the exception.  \<open>RecursionError\<close> is the interpreter
  giving up on a call stack that is too deep.
\<close>

datatype exc =
  OSError | ValueError | KeyError | TypeError | IndexError | AttributeError | RecursionError

text \<open>
  The argument of \<open>machinesize\<close>: a string, or a bare number.  Python floats are modelled
  as exact rationals; multiplying by a power of 1024 is exact on binary floats as well
  (short of overflow), sums and decimal literals are idealised.
\<close>

datatype pyval = PyStr string | PyNum rat

section \<open>The size converter (\<open>machinesize\<close>, ls.py 467-475)\<close>

text \<open>\<open>str.split(" ")\<close>: cut at every single blank; the result is never empty.\<close>

fun split_sp :: "string \<Rightarrow> string list" where
  "split_sp [] = [[]]"
| "split_sp (c # cs) =
     (if c = CHR '' '' then [] # split_sp cs
      else (case split_sp cs of [] \<Rightarrow> [[c]] | w # ws \<Rightarrow> (c # w) # ws))"

definition unit_converter :: "(string \<times> nat) list" where
  "unit_converter =
     [(''Bytes'', 0), (''kB'', 1), (''MB'', 2), (''GB'', 3), (''TB'', 4), (''PB'', 5)]"

text \<open>
  \<open>machinesize\<close>.  The parameter \<open>pyfloat\<close> is Python's builtin \<open>float\<close> on strings
  (\<open>None\<close> where it raises \<open>ValueError\<close>).  Unpacking the split into two names raises
  \<open>ValueError\<close> unless there are exactly two parts; only \<open>AttributeError\<close> (a value with
  no \<open>split\<close>, that is a number) is caught.  In the product the left operand
  \<open>float(size_str)\<close> is evaluated before the dictionary lookup.
\<close>

definition machinesize :: "(string \<Rightarrow> rat option) \<Rightarrow> pyval \<Rightarrow> exc + rat" where
  "machinesize pyfloat humansize =
     (case humansize of
        PyNum x \<Rightarrow> Inr x
      | PyStr s \<Rightarrow>
          (case split_sp s of
             [size_str, size_unit] \<Rightarrow>
               (case pyfloat size_str of
                  None \<Rightarrow> Inl ValueError
                | Some x \<Rightarrow>
                    (case map_of unit_converter size_unit of
                       None \<Rightarrow> Inl KeyError
                     | Some k \<Rightarrow> Inr (x * 1024 ^ k)))
           | _ \<Rightarrow> Inl ValueError))"

subsection \<open>Decimal literals\<close>

definition digit_val :: "char \<Rightarrow> nat option" where
  "digit_val c = map_of (zip ''0123456789'' [0..<10]) c"

definition digit_char :: "nat \<Rightarrow> char" where
  "digit_char d = ''0123456789'' ! d"

fun parse_digits :: "nat \<Rightarrow> string \<Rightarrow> nat option" where
  "parse_digits acc [] = Some acc"
| "parse_digits acc (c # cs) =
     (case digit_val c of None \<Rightarrow> None | Some d \<Rightarrow> parse_digits (10 * acc + d) cs)"

text \<open>
  The unsigned decimal fragment of Python's \<open>float\<close> on strings: digits with at most one
  point and at least one digit.  Signs, exponents, \<open>inf\<close>, \<open>nan\<close> and surrounding
  white space, which Python accepts as well, are outside this fragment.  It instantiates
  the parameter \<open>pyfloat\<close> where a concrete parser is needed.
\<close>

definition float_dec :: "string \<Rightarrow> rat option" where
  "float_dec s =
     (let ip = takeWhile (\<lambda>c. c \<noteq> CHR ''.'') s;
          rest = dropWhile (\<lambda>c. c \<noteq> CHR ''.'') s;
          fp = (if rest = [] then [] else tl rest)
      in if ip = [] \<and> fp = [] then None
         else (case (parse_digits 0 ip, parse_digits 0 fp) of
                 (Some i, Some f) \<Rightarrow> Some (of_nat i + of_nat f / 10 ^ length fp)
               | _ \<Rightarrow> None))"

text \<open>The decimal numeral of a natural number, as \<open>%d\<close> prints it.\<close>

fun digits :: "nat \<Rightarrow> string" where
  "digits n = (if n < 10 then [digit_char n] else digits (n div 10) @ [digit_char (n mod 10)])"

declare digits.simps [simp del]

section \<open>The external collaborators\<close>

text \<open>
  A path is the list of the components of an absolute, normalised path: \<open>opj\<close>
  (\<open>os.path.join\<close>) appends components, \<open>dirname\<close> drops the last one.  Components are
  not empty, as what \<open>listdir\<close> returns; the root is the empty list.
\<close>

type_synonym path = "string list"

definition opj :: "path \<Rightarrow> string list \<Rightarrow> path" where
  "opj p ns = p @ ns"

definition dirname :: "path \<Rightarrow> path" where
  "dirname p = butlast p"

text \<open>\<open>leaf_name\<close> (ls.py 423-426): the last component; empty for the root.\<close>

definition leaf_name :: "path \<Rightarrow> string" where
  "leaf_name p = (if p = [] then [] else last p)"

record stat =
  st_size :: nat
  st_mtime :: nat

text \<open>
  The repository handle, as far as \<open>FsModel\<close> consumes it: \<open>is_annex\<close> is
  \<open>isinstance(repo, AnnexRepo)\<close>, \<open>info_size p\<close> is \<open>repo.info(p)['size']\<close>,
  \<open>count_objects_size\<close> is \<open>count_objects['size']\<close> (\<open>None\<close> for an empty
  \<open>count_objects\<close>), and \<open>repo_info\<close> is \<open>repo.repo_info()\<close> reduced to its entries
  \<open>local annex size\<close> and \<open>size of annexed files in working tree\<close> (\<open>None\<close> when it is
  empty, \<open>Inl\<close> when the call raises).
\<close>

record repo =
  repo_path :: path
  is_annex :: bool
  is_under_annex :: "path \<Rightarrow> bool"
  info_size :: "path \<Rightarrow> rat"
  file_has_content :: "path \<Rightarrow> bool"
  count_objects_size :: "rat option"
  repo_info :: "exc + (rat \<times> rat) option"

text \<open>A dataset object: its path, its repository, and the paths of its sub-datasets.\<close>

record dataset =
  ds_path :: path
  ds_repo :: repo
  get_subdatasets :: "path list"

text \<open>
  What the code reads from outside: \<open>os.path\<close> and \<open>os\<close> (\<open>readlink\<close> returns whether
  the target is absolute, and its components; \<open>lstat\<close> is \<open>None\<close> and \<open>listdir\<close> is
  \<open>Inl\<close> where the call raises), the \<open>Dataset\<close> constructor, Python's \<open>float\<close> on
  strings, and \<open>humanize.naturalsize\<close>, a function of a third-party package, applied to
  a number or to \<open>None\<close>.
\<close>

record world =
  islink :: "path \<Rightarrow> bool"
  isfile :: "path \<Rightarrow> bool"
  isdir :: "path \<Rightarrow> bool"
  exists :: "path \<Rightarrow> bool"
  readlink :: "path \<Rightarrow> bool \<times> path"
  lstat :: "path \<Rightarrow> stat option"
  listdir :: "path \<Rightarrow> exc + string list"
  Dataset :: "path \<Rightarrow> dataset"
  pyfloat :: "string \<Rightarrow> rat option"
  naturalsize :: "rat option \<Rightarrow> exc + string"

section \<open>The node inspector (\<open>FsModel\<close>, ls.py 224-300)\<close>

text \<open>\<open>FsModel.symlink\<close>: the target of a symbolic link when it exists.\<close>

definition FsModel_symlink :: "world \<Rightarrow> path \<Rightarrow> path option" where
  "FsModel_symlink w p =
     (if islink w p then
        (let (ab, t) = readlink w p;
             target_path = (if ab then t else opj (dirname p) t)
         in if exists w target_path then Some target_path else None)
      else None)"

text \<open>\<open>FsModel.type_\<close>; a target path is a non-empty string, hence true in a condition.\<close>

definition FsModel_type :: "world \<Rightarrow> path \<Rightarrow> string option" where
  "FsModel_type w p =
     (if islink w p then
        (if FsModel_symlink w p \<noteq> None then Some ''link'' else Some ''link-broken'')
      else if isfile w p then Some ''file''
      else if exists w (opj p [''.git'', ''annex'']) then Some ''annex''
      else if exists w (opj p [''.git'']) then Some ''git''
      else if isdir w p then Some ''dir''
      else None)"

text \<open>\<open>GitModel.git_local_size\<close>, \<open>AnnexModel.annex_local_size\<close> and
  \<open>AnnexModel.annex_worktree_size\<close>.\<close>

definition git_local_size :: "repo \<Rightarrow> rat option" where
  "git_local_size r = count_objects_size r"

definition annex_local_size :: "repo \<Rightarrow> exc + rat option" where
  "annex_local_size r =
     (case repo_info r of Inl e \<Rightarrow> Inl e | Inr None \<Rightarrow> Inr None
      | Inr (Some (loc, wt)) \<Rightarrow> Inr (Some loc))"

definition annex_worktree_size :: "repo \<Rightarrow> exc + rat option" where
  "annex_worktree_size r =
     (case repo_info r of Inl e \<Rightarrow> Inl e | Inr None \<Rightarrow> Inr None
      | Inr (Some (loc, wt)) \<Rightarrow> Inr (Some wt))"

text \<open>\<open>FsModel.size\<close> (ls.py 257-282).  The dictionary is an association list in
  the order of the literal.\<close>

definition FsModel_size :: "world \<Rightarrow> repo \<Rightarrow> path \<Rightarrow> exc + (string \<times> rat option) list" where
  "FsModel_size w r p =
     (let ty = FsModel_type w p;
          sizes = [(''total'', Some 0), (''ondisk'', Some 0), (''git'', Some 0),
                   (''annex'', Some 0), (''annex_worktree'', Some 0)]
      in
      case
        (if ty = Some ''file'' \<or> ty = Some ''link'' \<or> ty = Some ''link-broken'' then
           (case
              (if is_annex r \<and> is_under_annex r p then
                 (let sz = info_size r p
                  in Inr (sz, if file_has_content r p then sz else 0))
               else if ty = Some ''link-broken'' then Inr (0, 0)
               else
                 (case lstat w (case FsModel_symlink w p of Some t \<Rightarrow> t | None \<Rightarrow> p) of
                    None \<Rightarrow> Inl OSError
                  | Some st \<Rightarrow> Inr (of_nat (st_size st), of_nat (st_size st))))
            of Inl e \<Rightarrow> Inl e
             | Inr (sz, ondisk_size) \<Rightarrow>
                 Inr (AList.update ''ondisk'' (Some ondisk_size)
                        (AList.update ''total'' (Some sz) sizes)))
         else Inr sizes)
      of Inl e \<Rightarrow> Inl e
       | Inr sizes1 \<Rightarrow>
           if repo_path r = p then
             (case annex_local_size r of Inl e \<Rightarrow> Inl e
              | Inr al \<Rightarrow>
                  (case annex_worktree_size r of Inl e \<Rightarrow> Inl e
                   | Inr aw \<Rightarrow>
                       Inr (AList.update ''annex_worktree'' aw
                              (AList.update ''annex'' al
                                 (AList.update ''git'' (git_local_size r) sizes1)))))
           else Inr sizes1)"

text \<open>
  \<open>FsModel.date\<close> (ls.py 249-255).  The test \<open>self.type_ is not ['git', 'annex']\<close>
  compares with a fresh list by identity and always holds, so the date is always the
  modification time of \<open>lstat\<close>.
\<close>

definition FsModel_date :: "world \<Rightarrow> path \<Rightarrow> exc + nat" where
  "FsModel_date w p = (case lstat w p of None \<Rightarrow> Inl OSError | Some st \<Rightarrow> Inr (st_mtime st))"

section \<open>Node records and the store\<close>

text \<open>
  A node record is the dictionary \<open>fs_extract\<close> builds.  \<open>nd_date\<close> holds the time
  stamp that \<open>time.strftime\<close> renders; \<open>nd_nodes\<close> is the key \<open>nodes\<close>, absent until
  \<open>fs_traverse\<close> sets it.  The dictionaries are mutable and shared by reference, so
  they live in a store: an address is an index into the list of all dictionaries
  allocated so far, and a list of children is a list of addresses.
\<close>

record node =
  nd_name :: string
  nd_path :: path
  nd_repo :: path
  nd_type :: "string option"
  nd_size :: "(string \<times> string) list"
  nd_date :: nat
  nd_nodes :: "nat list option"

type_synonym heap = "node list"

text \<open>The comprehension \<open>{stype: humanize.naturalsize(svalue) for ...}\<close>.\<close>

primrec pretty_sizes ::
  "(rat option \<Rightarrow> exc + string) \<Rightarrow> (string \<times> rat option) list \<Rightarrow> exc + (string \<times> string) list"
where
  "pretty_sizes hz [] = Inr []"
| "pretty_sizes hz (kv # kvs) =
     (case hz (snd kv) of Inl e \<Rightarrow> Inl e
      | Inr s \<Rightarrow>
          (case pretty_sizes hz kvs of Inl e \<Rightarrow> Inl e
           | Inr r \<Rightarrow> Inr ((fst kv, s) # r)))"

text \<open>\<open>fs_extract\<close> (ls.py 411-420).\<close>

definition fs_extract :: "world \<Rightarrow> repo \<Rightarrow> path \<Rightarrow> exc + node" where
  "fs_extract w r nodepath =
     (case FsModel_size w r nodepath of Inl e \<Rightarrow> Inl e
      | Inr sz \<Rightarrow>
          (case pretty_sizes (naturalsize w) sz of Inl e \<Rightarrow> Inl e
           | Inr pretty_size \<Rightarrow>
               (case FsModel_date w nodepath of Inl e \<Rightarrow> Inl e
                | Inr d \<Rightarrow>
                    Inr \<lparr>nd_name = (if leaf_name nodepath \<noteq> [] then leaf_name nodepath
                                     else leaf_name (repo_path r)),
                         nd_path = nodepath, nd_repo = repo_path r,
                         nd_type = FsModel_type w nodepath, nd_size = pretty_size,
                         nd_date = d, nd_nodes = None\<rparr>)))"

section \<open>The tree walker (\<open>fs_traverse\<close>, ls.py 429-439 and 478-536)\<close>

text \<open>
  \<open>ignored\<close>.  Both \<open>isdir\<close> tests are made before \<open>only_hidden\<close> is looked at;
  indexing the empty leaf name raises \<open>IndexError\<close>.
\<close>

definition ignored :: "world \<Rightarrow> path \<Rightarrow> bool \<Rightarrow> exc + bool" where
  "ignored w p only_hidden =
     (if (isdir w (opj p [''.git'']) \<or> isdir w (opj p [''.git'', ''annex''])) \<and> \<not> only_hidden
      then Inr True
      else if leaf_name p = [] then Inl IndexError
      else if hd (leaf_name p) = CHR ''.'' \<or> leaf_name p = ''index.html'' then Inr True
      else Inr False)"

text \<open>
  The roll-up loops (ls.py 517-520 and 574-577): for every item of every size dictionary,
  \<open>children_size[k] = children_size.get(k, 0) + machinesize(v)\<close>.
\<close>

primrec add_sizes ::
  "(string \<Rightarrow> rat option) \<Rightarrow> (string \<times> string) list \<Rightarrow> (string \<times> rat) list \<Rightarrow>
     exc + (string \<times> rat) list"
where
  "add_sizes pf [] acc = Inr acc"
| "add_sizes pf (kv # kvs) acc =
     (case machinesize pf (PyStr (snd kv)) of Inl e \<Rightarrow> Inl e
      | Inr x \<Rightarrow>
          add_sizes pf kvs
            (AList.update (fst kv)
               ((case map_of acc (fst kv) of None \<Rightarrow> 0 | Some a \<Rightarrow> a) + x) acc))"

primrec sum_sizes ::
  "(string \<Rightarrow> rat option) \<Rightarrow> (string \<times> string) list list \<Rightarrow> (string \<times> rat) list \<Rightarrow>
     exc + (string \<times> rat) list"
where
  "sum_sizes pf [] acc = Inr acc"
| "sum_sizes pf (s # ss) acc =
     (case add_sizes pf s acc of Inl e \<Rightarrow> Inl e | Inr acc' \<Rightarrow> sum_sizes pf ss acc')"

text \<open>The comprehension \<open>{size_type: humanize.naturalsize(size) for ...}\<close> on the sums.\<close>

definition humanize_sizes :: "world \<Rightarrow> (string \<times> rat) list \<Rightarrow> exc + (string \<times> string) list" where
  "humanize_sizes w cs = pretty_sizes (naturalsize w) (map (\<lambda>kv. (fst kv, Some (snd kv))) cs)"

text \<open>
  The body of the loop over \<open>listdir(path)\<close> (ls.py 504-514).  The state is the list
  \<open>children\<close>, which always starts with the directory's own entry, and the store;
  \<open>rc\<close> is the recursive call, given the child's path and the address of
  \<open>children[0]\<close> as the parent.  \<open>ignored(nodepath)\<close> is evaluated only when
  \<open>recursive\<close> holds.
\<close>

definition traverse_step ::
  "(path \<Rightarrow> nat \<Rightarrow> heap \<Rightarrow> exc + nat \<times> heap) \<Rightarrow> world \<Rightarrow> repo \<Rightarrow> path \<Rightarrow> bool \<Rightarrow> string \<Rightarrow>
     nat list \<times> heap \<Rightarrow> exc + nat list \<times> heap"
where
  "traverse_step rc w r path recursive node st =
     (let nodepath = opj path [node] in
      case ignored w nodepath True of Inl e \<Rightarrow> Inl e
      | Inr ig \<Rightarrow>
          (case
             (if \<not> ig then
                (case fs_extract w r nodepath of Inl e \<Rightarrow> Inl e
                 | Inr n \<Rightarrow> Inr (fst st @ [length (snd st)], snd st @ [n]))
              else Inr st)
           of Inl e \<Rightarrow> Inl e
            | Inr st1 \<Rightarrow>
                if recursive then
                  (case ignored w nodepath False of Inl e \<Rightarrow> Inl e
                   | Inr ig2 \<Rightarrow>
                       if \<not> ig2 then
                         (case rc nodepath (hd (fst st1)) (snd st1) of Inl e \<Rightarrow> Inl e
                          | Inr (subdir, h2) \<Rightarrow>
                              Inr (fst st1,
                                   h2[last (fst st1) :=
                                        (h2 ! last (fst st1))\<lparr>nd_size := nd_size (h2 ! subdir)\<rparr>]))
                       else Inr st1)
                else Inr st1))"

primrec traverse_loop ::
  "(path \<Rightarrow> nat \<Rightarrow> heap \<Rightarrow> exc + nat \<times> heap) \<Rightarrow> world \<Rightarrow> repo \<Rightarrow> path \<Rightarrow> bool \<Rightarrow> string list \<Rightarrow>
     nat list \<times> heap \<Rightarrow> exc + nat list \<times> heap"
where
  "traverse_loop rc w r path recursive [] st = Inr st"
| "traverse_loop rc w r path recursive (node # nodes) st =
     (case traverse_step rc w r path recursive node st of Inl e \<Rightarrow> Inl e
      | Inr st' \<Rightarrow> traverse_loop rc w r path recursive nodes st')"

text \<open>
  The assignments after the roll-up (ls.py 522-531), on the store \<open>h3\<close> the loop left:
  \<open>fs['size'] = children[0]['size'] = ...\<close>, \<open>children[0]['name'] = '.'\<close>,
  \<open>parent['name'] = '..'\<close> and \<open>children.insert(1, parent)\<close> when there is a parent,
  and \<open>fs['nodes'] = children\<close>.
\<close>

definition set_directory_record ::
  "nat \<Rightarrow> nat list \<Rightarrow> nat option \<Rightarrow> (string \<times> string) list \<Rightarrow> heap \<Rightarrow> heap" where
  "set_directory_record fs children parent sz h3 =
     (let h4 = h3[fs := (h3 ! fs)\<lparr>nd_size := sz\<rparr>];
          c0 = hd children;
          h5 = h4[c0 := (h4 ! c0)\<lparr>nd_size := sz, nd_name := ''.''\<rparr>];
          h6 = (case parent of None \<Rightarrow> h5
                | Some p \<Rightarrow> h5[p := (h5 ! p)\<lparr>nd_name := ''..''\<rparr>]);
          children' = (case parent of None \<Rightarrow> children
                       | Some p \<Rightarrow> c0 # p # tl children)
      in h6[fs := (h6 ! fs)\<lparr>nd_nodes := Some children'\<rparr>])"

text \<open>
  \<open>fs_traverse\<close>.  The first argument bounds the depth of the call stack.  The result
  is the address of the dictionary \<open>fs\<close> and the store after the call; \<open>parent\<close> is the
  address of the caller's dictionary, or \<open>None\<close> (a dictionary of \<open>fs_extract\<close> is never
  empty, hence true in \<open>if parent\<close>).  Rendering (\<open>fs_render\<close>, and the log line) writes
  the finished record out and changes no record; it is left out.
\<close>

fun fs_traverse ::
  "nat \<Rightarrow> world \<Rightarrow> repo \<Rightarrow> path \<Rightarrow> nat option \<Rightarrow> bool \<Rightarrow> heap \<Rightarrow> exc + nat \<times> heap"
where
  "fs_traverse 0 w r path parent recursive h = Inl RecursionError"
| "fs_traverse (Suc d) w r path parent recursive h =
     (case fs_extract w r path of Inl e \<Rightarrow> Inl e
      | Inr n \<Rightarrow>
          (let fs = length h; h1 = h @ [n] in
           if isdir w path then
             (case fs_extract w r path of Inl e \<Rightarrow> Inl e
              | Inr n0 \<Rightarrow>
                  (case listdir w path of Inl e \<Rightarrow> Inl e
                   | Inr names \<Rightarrow>
                       (case traverse_loop
                               (\<lambda>p par h'. fs_traverse d w r p (Some par) recursive h')
                               w r path recursive names ([length h1], h1 @ [n0])
                        of Inl e \<Rightarrow> Inl e
                         | Inr (children, h3) \<Rightarrow>
                             (case sum_sizes (pyfloat w)
                                     (map (\<lambda>c. nd_size (h3 ! c)) (tl children)) []
                              of Inl e \<Rightarrow> Inl e
                               | Inr children_size \<Rightarrow>
                                   (case humanize_sizes w children_size of Inl e \<Rightarrow> Inl e
                                    | Inr sz \<Rightarrow>
                                        Inr (fs, set_directory_record fs children parent sz h3))))))
           else Inr (fs, h1)))"

section \<open>The dataset walker (\<open>_ds_traverse\<close>, ls.py 539-586)\<close>

text \<open>
  The loop over \<open>rootds.get_subdatasets()\<close> (ls.py 568-571); \<open>rc\<close> is the recursive
  call, given the sub-dataset and the current dataset as its parent.
\<close>

primrec subds_loop ::
  "(dataset \<Rightarrow> dataset \<Rightarrow> heap \<Rightarrow> exc + nat \<times> heap) \<Rightarrow> world \<Rightarrow> dataset \<Rightarrow> path list \<Rightarrow>
     (string \<times> string) list list \<times> heap \<Rightarrow> exc + (string \<times> string) list list \<times> heap"
where
  "subds_loop rc w rootds [] st = Inr st"
| "subds_loop rc w rootds (subds_path # rest) st =
     (case rc (Dataset w (opj (ds_path rootds) subds_path)) rootds (snd st) of Inl e \<Rightarrow> Inl e
      | Inr (subfs, h') \<Rightarrow>
          subds_loop rc w rootds rest (fst st @ [nd_size (h' ! subfs)], h'))"

text \<open>
  \<open>_ds_traverse\<close>.  The recursive call does not pass \<open>all\<close>, which is then \<open>False\<close>.
  A dataset object is true in \<open>if parent\<close>.
\<close>

fun ds_traverse ::
  "nat \<Rightarrow> world \<Rightarrow> dataset \<Rightarrow> dataset option \<Rightarrow> bool \<Rightarrow> bool \<Rightarrow> heap \<Rightarrow> exc + nat \<times> heap"
where
  "ds_traverse 0 w rootds parent recursive all h = Inl RecursionError"
| "ds_traverse (Suc d) w rootds parent recursive all h =
     (case
        (case parent of None \<Rightarrow> Inr (None, h)
         | Some pd \<Rightarrow>
             (case fs_extract w (ds_repo pd) (ds_path pd) of Inl e \<Rightarrow> Inl e
              | Inr n \<Rightarrow> Inr (Some (length h), h @ [n])))
      of Inl e \<Rightarrow> Inl e
       | Inr (fsparent, h1) \<Rightarrow>
           (case fs_traverse d w (ds_repo rootds) (ds_path rootds) fsparent recursive h1 of
              Inl e \<Rightarrow> Inl e
            | Inr (fs, h2) \<Rightarrow>
                (case
                   (if all then
                      subds_loop (\<lambda>subds pd h'. ds_traverse d w subds (Some pd) recursive False h')
                        w rootds (get_subdatasets rootds) ([nd_size (h2 ! fs)], h2)
                    else Inr ([nd_size (h2 ! fs)], h2))
                 of Inl e \<Rightarrow> Inl e
                  | Inr (size_lst, h3) \<Rightarrow>
                      (case sum_sizes (pyfloat w) size_lst [] of Inl e \<Rightarrow> Inl e
                       | Inr children_size \<Rightarrow>
                           (case humanize_sizes w children_size of Inl e \<Rightarrow> Inl e
                            | Inr sz \<Rightarrow> Inr (fs, h3[fs := (h3 ! fs)\<lparr>nd_size := sz\<rparr>]))))))"

section \<open>Notions used to state the properties\<close>

text \<open>The five size categories, in the order of the literal in \<open>FsModel.size\<close>.\<close>

definition size_keys :: "string list" where
  "size_keys = [''total'', ''ondisk'', ''git'', ''annex'', ''annex_worktree'']"

text \<open>
  The number a size string stands for, and the sum of the numbers a size dictionary
  holds under the category \<open>k\<close>.
\<close>

definition size_value :: "(string \<Rightarrow> rat option) \<Rightarrow> string \<Rightarrow> rat" where
  "size_value pf v = (case machinesize pf (PyStr v) of Inl e \<Rightarrow> 0 | Inr x \<Rightarrow> x)"

definition category_sum :: "(string \<Rightarrow> rat option) \<Rightarrow> string \<Rightarrow> (string \<times> string) list \<Rightarrow> rat" where
  "category_sum pf k sz =
     sum_list (map (\<lambda>kv. size_value pf (snd kv)) (filter (\<lambda>kv. fst kv = k) sz))"

text \<open>A name that \<open>ignored(..., only_hidden=True)\<close> lets through.\<close>

definition visible :: "string \<Rightarrow> bool" where
  "visible node \<longleftrightarrow> node \<noteq> [] \<and> hd node \<noteq> CHR ''.'' \<and> node \<noteq> ''index.html''"

text \<open>
  What a recursive call may do to the store it is given: it allocates its result at the
  next free address and changes no existing record but its parent's, and that one only
  in its name.
\<close>

definition rc_ok :: "(path \<Rightarrow> nat \<Rightarrow> heap \<Rightarrow> exc + nat \<times> heap) \<Rightarrow> bool" where
  "rc_ok rc \<longleftrightarrow>
     (\<forall>p par h a h'. rc p par h = Inr (a, h') \<longrightarrow> par < length h \<longrightarrow>
        a = length h \<and> length h < length h' \<and>
        (\<forall>i<length h. i \<noteq> par \<longrightarrow> h' ! i = h ! i) \<and>
        (\<exists>nm. h' ! par = (h ! par)\<lparr>nd_name := nm\<rparr>))"

text \<open>
  The record at address \<open>c\<close> is the one \<open>fs_extract\<close> gives for a visible entry of the
  listing, up to its size (and with that size when the walk is not recursive).
\<close>

definition listed_child ::
  "world \<Rightarrow> repo \<Rightarrow> path \<Rightarrow> bool \<Rightarrow> string list \<Rightarrow> heap \<Rightarrow> nat \<Rightarrow> bool" where
  "listed_child w r path recursive names h c \<longleftrightarrow>
     (\<exists>node\<in>set names. visible node \<and>
        (\<exists>n sz. fs_extract w r (opj path [node]) = Inr n \<and> h ! c = n\<lparr>nd_size := sz\<rparr> \<and>
           (\<not> recursive \<longrightarrow> h ! c = n)))"

section \<open>\<open>humanize.naturalsize\<close> as the specification describes it\<close>

definition humanize_units :: "string list" where
  "humanize_units = [''Bytes'', ''kB'', ''MB'', ''GB'', ''TB'', ''PB'']"

text \<open>The rank of the unit chosen for \<open>b\<close>: the number of steps of 1024 that fit, at most 5.\<close>

definition unit_index :: "rat \<Rightarrow> nat" where
  "unit_index b = length (takeWhile (\<lambda>k. 1024 ^ Suc k \<le> b) [0..<5])"

text \<open>
  Modelled from the spec: \<open>humanize.naturalsize\<close> belongs to a third-party package and
  is not among the sources.  The specification says that it renders a byte count on the
  ladder Bytes, kB, MB, GB, TB, PB, each step a factor of 1024, with one decimal of
  precision.  Here the count is divided by 1024 to the rank of the unit, rounded to the
  nearest tenth (a half rounds up), and printed with one decimal and the unit.
\<close>

definition naturalsize_spec :: "rat \<Rightarrow> string" where
  "naturalsize_spec b =
     (let k = unit_index b;
          t = nat \<lfloor>10 * b / 1024 ^ k + 1 / 2\<rfloor>
      in digits (t div 10) @ ''.'' @ digits (t mod 10) @ '' '' @ humanize_units ! k)"

text \<open>On \<open>None\<close> the conversion to a float raises \<open>TypeError\<close>.\<close>

definition naturalsize_py :: "rat option \<Rightarrow> exc + string" where
  "naturalsize_py v = (case v of None \<Rightarrow> Inl TypeError | Some b \<Rightarrow> Inr (naturalsize_spec b))"

section \<open>Concrete worlds\<close>

text \<open>
  A repository without annex at \<open>rp\<close>, and a world given by its regular files with
  their sizes, its directories with their listings, and its dangling symbolic links.
\<close>

definition plain_repo :: "path \<Rightarrow> repo" where
  "plain_repo rp =
     \<lparr>repo_path = rp, is_annex = False, is_under_annex = (\<lambda>p. False),
      info_size = (\<lambda>p. 0), file_has_content = (\<lambda>p. False),
      count_objects_size = Some 0, repo_info = Inr (Some (0, 0))\<rparr>"

definition tree_world :: "(path \<times> nat) list \<Rightarrow> (path \<times> string list) list \<Rightarrow> path list \<Rightarrow> world" where
  "tree_world files dirs dangling =
     \<lparr>islink = (\<lambda>p. p \<in> set dangling),
      isfile = (\<lambda>p. map_of files p \<noteq> None),
      isdir = (\<lambda>p. map_of dirs p \<noteq> None),
      exists = (\<lambda>p. map_of files p \<noteq> None \<or> map_of dirs p \<noteq> None),
      readlink = (\<lambda>p. (False, [''gone''])),
      lstat = (\<lambda>p. case map_of files p of
                       Some n \<Rightarrow> Some \<lparr>st_size = n, st_mtime = 0\<rparr>
                     | None \<Rightarrow>
                         if p \<in> set dangling \<or> map_of dirs p \<noteq> None
                         then Some \<lparr>st_size = 0, st_mtime = 0\<rparr> else None),
      listdir = (\<lambda>p. case map_of dirs p of Some ns \<Rightarrow> Inr ns | None \<Rightarrow> Inl OSError),
      Dataset = (\<lambda>p. \<lparr>ds_path = p, ds_repo = plain_repo p, get_subdatasets = []\<rparr>),
      pyfloat = float_dec,
      naturalsize = naturalsize_py\<rparr>"

text \<open>
  A directory \<open>d\<close> with the files \<open>a\<close> (100 bytes), \<open>b\<close> (924 bytes) and the hidden
  file \<open>.c\<close>; an empty directory; a directory holding the root \<open>g\<close> of another
  repository; a directory with a sub-directory \<open>s\<close> that holds the root \<open>g\<close> of another
  repository; and a directory holding the dangling link \<open>l\<close>.
\<close>

definition scenario_world :: world where
  "scenario_world =
     tree_world [([''d'', ''a''], 100), ([''d'', ''b''], 924), ([''d'', ''.c''], 5)]
       [([''d''], [''a'', ''b'', ''.c''])] []"

definition empty_world :: world where
  "empty_world = tree_world [] [([''d''], [])] []"

definition subrepo_world :: world where
  "subrepo_world =
     tree_world [] [([''d''], [''g'']), ([''d'', ''g''], [''.git'']), ([''d'', ''g'', ''.git''], [])] []"

definition nested_world :: world where
  "nested_world =
     tree_world []
       [([''d''], [''s'']), ([''d'', ''s''], [''g'']), ([''d'', ''s'', ''g''], [''.git'']),
        ([''d'', ''s'', ''g'', ''.git''], [])] []"

definition dangling_world :: world where
  "dangling_world = tree_world [] [([''d''], [''l''])] [[''d'', ''l'']]"

text \<open>An annex repository at \<open>rp\<close> that tracks every path, each with 100 bytes and no
  content present.\<close>

definition annex_repo :: "path \<Rightarrow> repo" where
  "annex_repo rp =
     \<lparr>repo_path = rp, is_annex = True, is_under_annex = (\<lambda>p. True),
      info_size = (\<lambda>p. 100), file_has_content = (\<lambda>p. False),
      count_objects_size = Some 0, repo_info = Inr (Some (0, 0))\<rparr>"

text \<open>Shorthands for the records and size dictionaries of the concrete runs.\<close>

definition mk_node ::
  "string \<Rightarrow> path \<Rightarrow> path \<Rightarrow> string \<Rightarrow> (string \<times> string) list \<Rightarrow> nat list option \<Rightarrow> node" where
  "mk_node nm p rp ty sz ns =
     \<lparr>nd_name = nm, nd_path = p, nd_repo = rp, nd_type = Some ty, nd_size = sz,
      nd_date = 0, nd_nodes = ns\<rparr>"

definition sizes5 :: "string \<Rightarrow> string \<Rightarrow> (string \<times> string) list" where
  "sizes5 t od =
     [(''total'', t), (''ondisk'', od), (''git'', ''0.0 Bytes''), (''annex'', ''0.0 Bytes''),
      (''annex_worktree'', ''0.0 Bytes'')]"

text \<open>The stores the concrete runs end with.\<close>

definition zero_sizes :: "(string \<times> string) list" where
  "zero_sizes = sizes5 ''0.0 Bytes'' ''0.0 Bytes''"

definition scenario_result :: heap where
  "scenario_result =
     [mk_node ''d'' [''d''] [''r''] ''dir'' (sizes5 ''1.0 kB'' ''1.0 kB'') (Some [1, 2, 3]),
      mk_node ''.'' [''d''] [''r''] ''dir'' (sizes5 ''1.0 kB'' ''1.0 kB'') None,
      mk_node ''a'' [''d'', ''a''] [''r''] ''file'' (sizes5 ''100.0 Bytes'' ''100.0 Bytes'') None,
      mk_node ''b'' [''d'', ''b''] [''r''] ''file'' (sizes5 ''924.0 Bytes'' ''924.0 Bytes'') None]"

definition empty_result :: heap where
  "empty_result =
     [mk_node ''d'' [''d''] [''r''] ''dir'' [] (Some [1]),
      mk_node ''.'' [''d''] [''r''] ''dir'' [] None]"

definition subrepo_result :: heap where
  "subrepo_result =
     [mk_node ''d'' [''d''] [''r''] ''dir'' zero_sizes (Some [1, 2]),
      mk_node ''.'' [''d''] [''r''] ''dir'' zero_sizes None,
      mk_node ''g'' [''d'', ''g''] [''r''] ''git'' zero_sizes None]"

definition nested_result :: heap where
  "nested_result =
     [mk_node ''d'' [''d''] [''r''] ''dir'' zero_sizes (Some [1, 2]),
      mk_node ''.'' [''d''] [''r''] ''dir'' zero_sizes None,
      mk_node ''s'' [''d'', ''s''] [''r''] ''dir'' zero_sizes None]"

definition nested_result_recursive :: heap where
  "nested_result_recursive =
     nested_result @
     [mk_node ''s'' [''d'', ''s''] [''r''] ''dir'' zero_sizes (Some [4, 1, 5]),
      mk_node ''.'' [''d'', ''s''] [''r''] ''dir'' zero_sizes None,
      mk_node ''g'' [''d'', ''s'', ''g''] [''r''] ''git'' zero_sizes None]"

definition dangling_result :: heap where
  "dangling_result =
     [mk_node ''d'' [''d''] [''r''] ''dir'' zero_sizes (Some [1, 2]),
      mk_node ''.'' [''d''] [''r''] ''dir'' zero_sizes None,
      mk_node ''l'' [''d'', ''l''] [''r''] ''link-broken'' zero_sizes None,
      mk_node ''l'' [''d'', ''l''] [''r''] ''link-broken'' zero_sizes None]"

text \<open>A store that holds a caller's record, named \<open>top\<close>, and the store after
  \<open>fs_traverse\<close> was given that record as the parent of the empty directory.\<close>

definition caller_heap :: heap where
  "caller_heap = [mk_node ''top'' [] [''r''] ''dir'' [] None]"

definition caller_result :: heap where
  "caller_result =
     [mk_node ''..'' [] [''r''] ''dir'' [] None,
      mk_node ''d'' [''d''] [''r''] ''dir'' [] (Some [2, 0]),
      mk_node ''.'' [''d''] [''r''] ''dir'' [] None]"

section \<open>Facts about the size converter\<close>

lemma split_sp_not_Nil: "split_sp s \<noteq> []"
  by (induction s) (auto split: list.splits)

lemma split_sp_no_blank: "CHR '' '' \<notin> set s \<Longrightarrow> split_sp s = [s]"
  by (induction s) auto

lemma split_sp_append:
  "CHR '' '' \<notin> set n \<Longrightarrow> split_sp (n @ CHR '' '' # r) = n # split_sp r"
  by (induction n) auto

lemma split_sp_single: "split_sp s = [b] \<Longrightarrow> s = b \<and> CHR '' '' \<notin> set b"
proof (induction s arbitrary: b)
  case Nil
  then show ?case by simp
next
  case (Cons d ds)
  then show ?case
    by (auto split: if_splits list.splits simp: split_sp_not_Nil)
qed

lemma split_sp_two:
  "split_sp s = [a, b] \<Longrightarrow>
     s = a @ '' '' @ b \<and> CHR '' '' \<notin> set a \<and> CHR '' '' \<notin> set b"
proof (induction s arbitrary: a)
  case Nil
  then show ?case by simp
next
  case (Cons c cs)
  show ?case
  proof (cases "c = CHR '' ''")
    case True
    with Cons.prems have a: "a = []" and r: "split_sp cs = [b]"
      by auto
    from split_sp_single [OF r] a True show ?thesis
      by simp
  next
    case False
    with Cons.prems obtain w where w: "split_sp cs = [w, b]" and a: "a = c # w"
      by (auto split: list.splits)
    from Cons.IH [OF w] a False show ?thesis
      by simp
  qed
qed

text \<open>
  C3.  \<open>machinesize\<close> returns a number for a string only when the string is
  \<open>number\<close>, one blank, \<open>unit\<close>, where the number is a blank-free string that \<open>float\<close>
  accepts and the unit is a key of the ladder (Bytes, kB, MB, GB, TB, PB); the result is
  then the number times 1024 to the unit's rank.  Every other string raises \<open>ValueError\<close>
  or \<open>KeyError\<close>.  A bare number is passed through unchanged.
\<close>

theorem machinesize_format_error:
  "(machinesize pf (PyStr s) = Inr y \<longrightarrow>
      (\<exists>n u v k. s = n @ '' '' @ u \<and> CHR '' '' \<notin> set n \<and> CHR '' '' \<notin> set u \<and>
         pf n = Some v \<and> map_of unit_converter u = Some k \<and> k \<le> 5 \<and>
         y = v * 1024 ^ k)) \<and>
   ((\<forall>n u. s = n @ '' '' @ u \<longrightarrow> CHR '' '' \<in> set n \<or> pf n = None \<or>
         u \<notin> fst ` set unit_converter) \<longrightarrow>
      machinesize pf (PyStr s) = Inl ValueError \<or>
      machinesize pf (PyStr s) = Inl KeyError) \<and>
   machinesize pf (PyNum x) = Inr x"
proof (intro conjI impI)
  show "machinesize pf (PyNum x) = Inr x"
    by (simp add: machinesize_def)
next
  assume ok: "machinesize pf (PyStr s) = Inr y"
  then obtain a b where ab: "split_sp s = [a, b]"
    by (auto simp: machinesize_def split: list.splits)
  from ok ab obtain v where v: "pf a = Some v"
    by (auto simp: machinesize_def split: option.splits)
  from ok ab v obtain k where k: "map_of unit_converter b = Some k" and y: "y = v * 1024 ^ k"
    by (auto simp: machinesize_def split: option.splits)
  from k have "k \<le> 5"
    by (auto simp: unit_converter_def split: if_splits)
  with split_sp_two [OF ab] v k y
  show "\<exists>n u v k. s = n @ '' '' @ u \<and> CHR '' '' \<notin> set n \<and> CHR '' '' \<notin> set u \<and>
         pf n = Some v \<and> map_of unit_converter u = Some k \<and> k \<le> 5 \<and> y = v * 1024 ^ k"
    by blast
next
  assume bad: "\<forall>n u. s = n @ '' '' @ u \<longrightarrow> CHR '' '' \<in> set n \<or> pf n = None \<or>
         u \<notin> fst ` set unit_converter"
  show "machinesize pf (PyStr s) = Inl ValueError \<or>
      machinesize pf (PyStr s) = Inl KeyError"
  proof (cases "\<exists>a b. split_sp s = [a, b]")
    case False
    then show ?thesis
      by (auto simp: machinesize_def split: list.splits)
  next
    case True
    then obtain a b where ab: "split_sp s = [a, b]"
      by blast
    from split_sp_two [OF ab] bad
    have "pf a = None \<or> b \<notin> fst ` set unit_converter"
      by blast
    then show ?thesis
    proof
      assume "pf a = None"
      with ab show ?thesis
        by (simp add: machinesize_def)
    next
      assume "b \<notin> fst ` set unit_converter"
      then have "map_of unit_converter b = None"
        by (simp add: map_of_eq_None_iff)
      with ab show ?thesis
        by (cases "pf a") (simp_all add: machinesize_def)
    qed
  qed
qed

theorem machinesize_format_error_witness:
  "machinesize float_dec (PyStr ''1.5 kB'') = Inr 1536 \<and>
   (\<exists>n u v k. ''1.5 kB'' = n @ '' '' @ u \<and> CHR '' '' \<notin> set n \<and> CHR '' '' \<notin> set u \<and>
      float_dec n = Some v \<and> map_of unit_converter u = Some k \<and> k \<le> 5 \<and>
      (1536 :: rat) = v * 1024 ^ k) \<and>
   machinesize float_dec (PyStr ''1.5kB'') = Inl ValueError \<and>
   machinesize float_dec (PyStr ''1.5 kb'') = Inl KeyError \<and>
   machinesize float_dec (PyNum 7) = Inr 7"
proof -
  have ok: "machinesize float_dec (PyStr ''1.5 kB'') = Inr 1536"
    by code_simp
  have e1: "machinesize float_dec (PyStr ''1.5kB'') = Inl ValueError"
    by code_simp
  have e2: "machinesize float_dec (PyStr ''1.5 kb'') = Inl KeyError"
    by code_simp
  from machinesize_format_error [of float_dec "''1.5 kB''" 1536 7] ok e1 e2
  show ?thesis
    by blast
qed

section \<open>Facts about the node inspector and the roll-up\<close>

lemma pretty_sizes_keys: "pretty_sizes hz kvs = Inr r \<Longrightarrow> map fst r = map fst kvs"
  by (induction kvs arbitrary: r) (auto split: sum.splits)

lemma pretty_sizes_map_of:
  "pretty_sizes hz kvs = Inr r \<Longrightarrow>
     map_of r k = (case map_of kvs k of None \<Rightarrow> None
                   | Some v \<Rightarrow> (case hz v of Inl e \<Rightarrow> None | Inr s \<Rightarrow> Some s))"
  by (induction kvs arbitrary: r) (auto split: sum.splits)

lemma pretty_sizes_values:
  "pretty_sizes hz kvs = Inr r \<Longrightarrow> (k, s) \<in> set r \<Longrightarrow> \<exists>v. (k, v) \<in> set kvs \<and> hz v = Inr s"
  by (induction kvs arbitrary: r) (fastforce split: sum.splits)+

lemma FsModel_size_keys: "FsModel_size w r p = Inr sz \<Longrightarrow> map fst sz = size_keys"
  by (auto simp: FsModel_size_def size_keys_def Let_def update_keys
           split: if_splits sum.splits option.splits prod.splits)

lemma fs_extract_fields:
  assumes "fs_extract w r p = Inr n"
  shows "map fst (nd_size n) = size_keys \<and> nd_nodes n = None \<and> nd_path n = p \<and>
     nd_repo n = repo_path r \<and> nd_type n = FsModel_type w p \<and>
     nd_name n = (if leaf_name p \<noteq> [] then leaf_name p else leaf_name (repo_path r))"
proof -
  from assms obtain sz ps d where sz: "FsModel_size w r p = Inr sz"
    and ps: "pretty_sizes (naturalsize w) sz = Inr ps"
    and n: "n = \<lparr>nd_name = (if leaf_name p \<noteq> [] then leaf_name p else leaf_name (repo_path r)),
                    nd_path = p, nd_repo = repo_path r, nd_type = FsModel_type w p,
                    nd_size = ps, nd_date = d, nd_nodes = None\<rparr>"
    by (auto simp: fs_extract_def split: sum.splits)
  from pretty_sizes_keys [OF ps] FsModel_size_keys [OF sz] have "map fst ps = size_keys"
    by simp
  with n show ?thesis
    by simp
qed

lemma category_sum_simps [simp]:
  "category_sum pf k [] = 0"
  "category_sum pf k (kv # kvs) = (if fst kv = k then size_value pf (snd kv) else 0) + category_sum pf k kvs"
  by (simp_all add: category_sum_def)

lemma category_sum_absent: "k \<notin> fst ` set sz \<Longrightarrow> category_sum pf k sz = 0"
  by (induction sz) auto

lemma map_of_Some_values:
  "map_of (map (\<lambda>kv. (fst kv, Some (snd kv))) cs) k = map_option Some (map_of cs k)"
  by (induction cs) auto

lemma add_sizes_map_of:
  "add_sizes pf sz acc = Inr acc' \<Longrightarrow>
     map_of acc' k =
       (if k \<in> fst ` set sz \<or> map_of acc k \<noteq> None
        then Some ((case map_of acc k of None \<Rightarrow> 0 | Some a \<Rightarrow> a) + category_sum pf k sz)
        else None)"
proof (induction sz arbitrary: acc)
  case Nil
  then show ?case by (auto split: option.splits)
next
  case (Cons kv kvs)
  from Cons.prems obtain x where x: "machinesize pf (PyStr (snd kv)) = Inr x"
    and rest: "add_sizes pf kvs (AList.update (fst kv)
                 ((case map_of acc (fst kv) of None \<Rightarrow> 0 | Some a \<Rightarrow> a) + x) acc) = Inr acc'"
    by (auto split: sum.splits)
  have sv: "size_value pf (snd kv) = x"
    using x by (simp add: size_value_def)
  show ?case
    unfolding Cons.IH [OF rest]
    by (auto simp: update_conv' sv split: option.splits)
qed

lemma add_sizes_parses:
  "add_sizes pf sz acc = Inr acc' \<Longrightarrow> kv \<in> set sz \<Longrightarrow> \<exists>x. machinesize pf (PyStr (snd kv)) = Inr x"
  by (induction sz arbitrary: acc) (auto split: sum.splits)

lemma add_sizes_distinct:
  "add_sizes pf sz acc = Inr acc' \<Longrightarrow> distinct (map fst acc) \<Longrightarrow> distinct (map fst acc')"
  by (induction sz arbitrary: acc) (auto split: sum.splits simp: distinct_update)

lemma sum_sizes_map_of:
  "sum_sizes pf ss acc = Inr acc' \<Longrightarrow>
     map_of acc' k =
       (if (\<exists>sz\<in>set ss. k \<in> fst ` set sz) \<or> map_of acc k \<noteq> None
        then Some ((case map_of acc k of None \<Rightarrow> 0 | Some a \<Rightarrow> a) +
                   sum_list (map (category_sum pf k) ss))
        else None)"
proof (induction ss arbitrary: acc)
  case Nil
  then show ?case by (auto split: option.splits)
next
  case (Cons sz ss)
  from Cons.prems obtain acc1 where a1: "add_sizes pf sz acc = Inr acc1"
    and rest: "sum_sizes pf ss acc1 = Inr acc'"
    by (auto split: sum.splits)
  show ?case
    unfolding Cons.IH [OF rest] add_sizes_map_of [OF a1]
    by (auto split: option.splits simp: category_sum_absent)
qed

lemma sum_sizes_parses:
  "sum_sizes pf ss acc = Inr acc' \<Longrightarrow> sz \<in> set ss \<Longrightarrow> kv \<in> set sz \<Longrightarrow>
     \<exists>x. machinesize pf (PyStr (snd kv)) = Inr x"
  by (induction ss arbitrary: acc) (auto split: sum.splits dest: add_sizes_parses)

lemma sum_sizes_distinct:
  "sum_sizes pf ss acc = Inr acc' \<Longrightarrow> distinct (map fst acc) \<Longrightarrow> distinct (map fst acc')"
  by (induction ss arbitrary: acc) (auto split: sum.splits dest: add_sizes_distinct)

lemma humanize_sizes_map_of:
  "humanize_sizes w cs = Inr sz \<Longrightarrow>
     map_of sz k = (case map_of cs k of None \<Rightarrow> None
                    | Some x \<Rightarrow> (case naturalsize w (Some x) of Inl e \<Rightarrow> None | Inr s \<Rightarrow> Some s))"
  unfolding humanize_sizes_def
  by (drule pretty_sizes_map_of [where k = k]) (simp add: map_of_Some_values split: option.splits)

lemma humanize_sizes_keys: "humanize_sizes w cs = Inr sz \<Longrightarrow> map fst sz = map fst cs"
  unfolding humanize_sizes_def by (drule pretty_sizes_keys) (simp add: comp_def)

section \<open>Facts about the loop of the tree walker\<close>

lemma leaf_name_opj [simp]: "leaf_name (opj path [node]) = node"
  by (simp add: leaf_name_def opj_def)

lemma ignored_only_hidden:
  "ignored w (opj path [node]) True = Inr ig \<Longrightarrow> ig = (\<not> visible node)"
  by (auto simp: ignored_def visible_def split: if_splits)

lemma ignored_False_imp:
  "ignored w p False = Inr False \<Longrightarrow> ignored w p True = Inr False"
  by (auto simp: ignored_def split: if_splits)

lemma traverse_step_cases:
  assumes "traverse_step rc w r path recursive node (ch, h) = Inr (ch', h')"
  shows "(\<not> visible node \<and> ch' = ch \<and> h' = h) \<or>
         (visible node \<and> (\<exists>n. fs_extract w r (opj path [node]) = Inr n \<and> ch' = ch @ [length h] \<and>
            ((h' = h @ [n] \<and> (\<not> recursive \<or> ignored w (opj path [node]) False = Inr True)) \<or>
             (recursive \<and> ignored w (opj path [node]) False = Inr False \<and>
              (\<exists>subdir h2. rc (opj path [node]) (hd (ch @ [length h])) (h @ [n]) = Inr (subdir, h2) \<and>
                 h' = h2[length h := (h2 ! length h)\<lparr>nd_size := nd_size (h2 ! subdir)\<rparr>])))))"
proof -
  obtain ig where ig: "ignored w (opj path [node]) True = Inr ig"
    using assms by (auto simp: traverse_step_def Let_def split: sum.splits)
  note vis = ignored_only_hidden [OF ig]
  show ?thesis
  proof (cases ig)
    case True
    have "\<not> recursive \<or> ignored w (opj path [node]) False \<noteq> Inr False"
      using ignored_False_imp [of w "opj path [node]"] ig True by auto
    with assms ig True vis show ?thesis
      by (auto simp: traverse_step_def Let_def split: sum.splits if_splits bool.splits)
  next
    case False
    with assms ig vis show ?thesis
      by (auto simp: traverse_step_def Let_def split: sum.splits if_splits prod.splits)
  qed
qed

lemma traverse_step_inv:
  assumes rc: "rc_ok rc"
    and step: "traverse_step rc w r path recursive node (ch, h) = Inr (ch', h')"
    and ch: "ch \<noteq> []" "hd ch < length h"
  shows "length h \<le> length h' \<and>
         (ch' = ch \<or>
          (ch' = ch @ [length h] \<and> length h < length h' \<and> visible node \<and>
           (\<exists>n sz. fs_extract w r (opj path [node]) = Inr n \<and>
              h' ! length h = n\<lparr>nd_size := sz\<rparr> \<and> (\<not> recursive \<longrightarrow> h' ! length h = n)))) \<and>
         (\<forall>i<length h. i \<noteq> hd ch \<longrightarrow> h' ! i = h ! i) \<and>
         (\<exists>nm. h' ! hd ch = (h ! hd ch)\<lparr>nd_name := nm\<rparr>)"
proof -
  have same: "\<exists>nm. h ! hd ch = (h ! hd ch)\<lparr>nd_name := nm\<rparr>"
    by (rule exI [of _ "nd_name (h ! hd ch)"]) simp
  from traverse_step_cases [OF step] consider
      (skip) "ch' = ch" "h' = h"
    | (app) n where "visible node" "fs_extract w r (opj path [node]) = Inr n"
        "ch' = ch @ [length h]" "h' = h @ [n]"
        "\<not> recursive \<or> ignored w (opj path [node]) False = Inr True"
    | (call) n subdir h2 where "visible node" "fs_extract w r (opj path [node]) = Inr n"
        "ch' = ch @ [length h]" "recursive"
        "rc (opj path [node]) (hd (ch @ [length h])) (h @ [n]) = Inr (subdir, h2)"
        "h' = h2[length h := (h2 ! length h)\<lparr>nd_size := nd_size (h2 ! subdir)\<rparr>]"
    by blast
  then show ?thesis
  proof cases
    case skip
    with same show ?thesis by simp
  next
    case app
    with same ch show ?thesis
      by (auto simp: nth_append intro: exI [of _ "nd_size n"])
  next
    case call
    note v = call(1) and n = call(2) and c = call(3) and call' = call(5) and h' = call(6)
    have hd: "hd (ch @ [length h]) = hd ch"
      using ch by simp
    from rc call' hd ch
    have sub: "subdir = Suc (length h)" and len: "Suc (length h) < length h2"
      and frame: "\<And>i. i < Suc (length h) \<Longrightarrow> i \<noteq> hd ch \<Longrightarrow> h2 ! i = (h @ [n]) ! i"
      and par: "\<exists>nm. h2 ! hd ch = ((h @ [n]) ! hd ch)\<lparr>nd_name := nm\<rparr>"
      unfolding rc_ok_def by (fastforce simp: less_Suc_eq)+
    from frame [of "length h"] ch have new: "h2 ! length h = n"
      by simp
    have old: "\<And>i. i < length h \<Longrightarrow> i \<noteq> hd ch \<Longrightarrow> h' ! i = h ! i"
      using frame h' by (simp add: nth_append)
    from par ch h' have par': "\<exists>nm. h' ! hd ch = (h ! hd ch)\<lparr>nd_name := nm\<rparr>"
      by (simp add: nth_append)
    from h' len new have "h' ! length h = n\<lparr>nd_size := nd_size (h2 ! subdir)\<rparr>"
      by simp
    with v n c h' len old par' \<open>recursive\<close> show ?thesis
      by auto
  qed
qed

lemma listed_child_mono:
  "listed_child w r path recursive names h c \<Longrightarrow> h' ! c = h ! c \<Longrightarrow>
     listed_child w r path recursive (node # names) h' c"
  unfolding listed_child_def by fastforce

lemma traverse_loop_inv:
  assumes "rc_ok rc"
    and "traverse_loop rc w r path recursive names (ch, h) = Inr (ch', h')"
    and "ch \<noteq> []" "hd ch < length h"
  shows "length h \<le> length h' \<and>
         (\<exists>new. ch' = ch @ new \<and>
            (\<forall>c\<in>set new. length h \<le> c \<and> c < length h' \<and>
               listed_child w r path recursive names h' c)) \<and>
         (\<forall>i<length h. i \<noteq> hd ch \<longrightarrow> h' ! i = h ! i) \<and>
         (\<exists>nm. h' ! hd ch = (h ! hd ch)\<lparr>nd_name := nm\<rparr>)"
  using assms(2-)
proof (induction names arbitrary: ch h)
  case Nil
  then show ?case
    by (auto intro: exI [of _ "nd_name (h ! hd ch)"])
next
  case (Cons node names)
  from Cons.prems(1) obtain ch1 h1
    where step: "traverse_step rc w r path recursive node (ch, h) = Inr (ch1, h1)"
      and rest: "traverse_loop rc w r path recursive names (ch1, h1) = Inr (ch', h')"
    by (auto split: sum.splits)
  note inv1 = traverse_step_inv [OF assms(1) step Cons.prems(2,3)]
  from inv1 have len1: "length h \<le> length h1"
    by (rule conjunct1)
  from inv1 have ch1: "ch1 = ch \<or>
          (ch1 = ch @ [length h] \<and> length h < length h1 \<and> visible node \<and>
           (\<exists>n sz. fs_extract w r (opj path [node]) = Inr n \<and>
              h1 ! length h = n\<lparr>nd_size := sz\<rparr> \<and> (\<not> recursive \<longrightarrow> h1 ! length h = n)))"
    by (rule conjunct1 [OF conjunct2])
  from inv1 have frame1: "\<forall>i<length h. i \<noteq> hd ch \<longrightarrow> h1 ! i = h ! i"
    by (rule conjunct1 [OF conjunct2 [OF conjunct2]])
  from inv1 have par1: "\<exists>nm. h1 ! hd ch = (h ! hd ch)\<lparr>nd_name := nm\<rparr>"
    by (rule conjunct2 [OF conjunct2 [OF conjunct2]])
  from ch1 Cons.prems(2) have ne1: "ch1 \<noteq> []" and hd1: "hd ch1 = hd ch"
    by auto
  from hd1 Cons.prems(3) len1 have lt1: "hd ch1 < length h1"
    by simp
  note inv2 = Cons.IH [OF rest ne1 lt1, unfolded hd1]
  from inv2 have len2: "length h1 \<le> length h'"
    by (rule conjunct1)
  from inv2 obtain new2 where ch': "ch' = ch1 @ new2"
    and new2: "\<forall>c\<in>set new2. length h1 \<le> c \<and> c < length h' \<and>
                 listed_child w r path recursive names h' c"
    using conjunct1 [OF conjunct2] by blast
  from inv2 have frame2: "\<forall>i<length h1. i \<noteq> hd ch \<longrightarrow> h' ! i = h1 ! i"
    by (rule conjunct1 [OF conjunct2 [OF conjunct2]])
  from inv2 have par2: "\<exists>nm. h' ! hd ch = (h1 ! hd ch)\<lparr>nd_name := nm\<rparr>"
    by (rule conjunct2 [OF conjunct2 [OF conjunct2]])
  have len: "length h \<le> length h'"
    using len1 len2 by simp
  have new2': "\<forall>c\<in>set new2. length h \<le> c \<and> c < length h' \<and>
                 listed_child w r path recursive (node # names) h' c"
  proof
    fix c assume c: "c \<in> set new2"
    with new2 have "length h1 \<le> c" "c < length h'" "listed_child w r path recursive names h' c"
      by auto
    with len1 show "length h \<le> c \<and> c < length h' \<and>
                 listed_child w r path recursive (node # names) h' c"
      by (simp add: listed_child_mono)
  qed
  have frame: "\<forall>i<length h. i \<noteq> hd ch \<longrightarrow> h' ! i = h ! i"
    using frame1 frame2 len1 by simp
  from par1 obtain nm1 where nm1: "h1 ! hd ch = (h ! hd ch)\<lparr>nd_name := nm1\<rparr>" ..
  from par2 obtain nm2 where nm2: "h' ! hd ch = (h1 ! hd ch)\<lparr>nd_name := nm2\<rparr>" ..
  have par: "\<exists>nm. h' ! hd ch = (h ! hd ch)\<lparr>nd_name := nm\<rparr>"
    by (rule exI [of _ nm2]) (simp add: nm1 nm2)
  from ch1 show ?case
  proof
    assume "ch1 = ch"
    with ch' have "ch' = ch @ new2"
      by simp
    with new2' have "\<exists>new. ch' = ch @ new \<and>
            (\<forall>c\<in>set new. length h \<le> c \<and> c < length h' \<and>
               listed_child w r path recursive (node # names) h' c)"
      by blast
    with len frame par show ?thesis
      by (intro conjI)
  next
    assume a: "ch1 = ch @ [length h] \<and> length h < length h1 \<and> visible node \<and>
           (\<exists>n sz. fs_extract w r (opj path [node]) = Inr n \<and>
              h1 ! length h = n\<lparr>nd_size := sz\<rparr> \<and> (\<not> recursive \<longrightarrow> h1 ! length h = n))"
    then have keep: "h' ! length h = h1 ! length h"
      using frame2 Cons.prems(3) by simp
    from a keep have "listed_child w r path recursive (node # names) h' (length h)"
      unfolding listed_child_def by simp
    moreover from a len2 have "length h < length h'"
      by simp
    ultimately have "\<forall>c\<in>set (length h # new2). length h \<le> c \<and> c < length h' \<and>
               listed_child w r path recursive (node # names) h' c"
      using new2' by simp
    moreover from a ch' have "ch' = ch @ (length h # new2)"
      by simp
    ultimately have "\<exists>new. ch' = ch @ new \<and>
            (\<forall>c\<in>set new. length h \<le> c \<and> c < length h' \<and>
               listed_child w r path recursive (node # names) h' c)"
      by blast
    with len frame par show ?thesis
      by (intro conjI)
  qed
qed

section \<open>Facts about \<open>fs_traverse\<close>\<close>

lemma fs_traverse_not_dir:
  assumes "fs_traverse (Suc d) w r path parent recursive h = Inr (a, h')" "\<not> isdir w path"
  shows "\<exists>n. fs_extract w r path = Inr n \<and> a = length h \<and> h' = h @ [n]"
  using assms by (auto simp: Let_def split: sum.splits)

lemma fs_traverse_dir:
  assumes "fs_traverse (Suc d) w r path parent recursive h = Inr (a, h')" "isdir w path"
  shows "\<exists>n names children h3 children_size sz.
           fs_extract w r path = Inr n \<and> listdir w path = Inr names \<and>
           traverse_loop (\<lambda>p par h'. fs_traverse d w r p (Some par) recursive h')
             w r path recursive names ([Suc (length h)], h @ [n, n]) = Inr (children, h3) \<and>
           sum_sizes (pyfloat w) (map (\<lambda>c. nd_size (h3 ! c)) (tl children)) [] = Inr children_size \<and>
           humanize_sizes w children_size = Inr sz \<and>
           a = length h \<and> h' = set_directory_record (length h) children parent sz h3"
  using assms by (auto simp: Let_def split: sum.splits prod.splits)

lemma set_directory_record_length [simp]:
  "length (set_directory_record fs children parent sz h3) = length h3"
  by (simp add: set_directory_record_def Let_def split: option.splits)

lemma set_directory_record_other:
  "i \<noteq> fs \<Longrightarrow> i \<noteq> hd children \<Longrightarrow> parent \<noteq> Some i \<Longrightarrow>
     set_directory_record fs children parent sz h3 ! i = h3 ! i"
  by (cases parent) (simp_all add: set_directory_record_def Let_def)

lemma set_directory_record_fs:
  "fs < length h3 \<Longrightarrow> fs \<noteq> hd children \<Longrightarrow> parent \<noteq> Some fs \<Longrightarrow>
     set_directory_record fs children parent sz h3 ! fs =
       (h3 ! fs)\<lparr>nd_size := sz,
                 nd_nodes := Some (case parent of None \<Rightarrow> children
                                   | Some p \<Rightarrow> hd children # p # tl children)\<rparr>"
  by (cases parent) (simp_all add: set_directory_record_def Let_def)

lemma set_directory_record_self:
  "hd children < length h3 \<Longrightarrow> fs \<noteq> hd children \<Longrightarrow> parent \<noteq> Some (hd children) \<Longrightarrow>
     set_directory_record fs children parent sz h3 ! hd children =
       (h3 ! hd children)\<lparr>nd_size := sz, nd_name := ''.''\<rparr>"
  by (cases parent) (simp_all add: set_directory_record_def Let_def)

lemma set_directory_record_parent:
  "p < length h3 \<Longrightarrow> p \<noteq> fs \<Longrightarrow> p \<noteq> hd children \<Longrightarrow>
     set_directory_record fs children (Some p) sz h3 ! p = (h3 ! p)\<lparr>nd_name := ''..''\<rparr>"
  by (auto simp: set_directory_record_def Let_def)

lemma fs_traverse_frame:
  "fs_traverse d w r path parent recursive h = Inr (a, h') \<Longrightarrow>
   (\<forall>p. parent = Some p \<longrightarrow> p < length h) \<Longrightarrow>
     a = length h \<and> length h < length h' \<and>
     (\<forall>i<length h. parent \<noteq> Some i \<longrightarrow> h' ! i = h ! i) \<and>
     (\<forall>p. parent = Some p \<longrightarrow> (\<exists>nm. h' ! p = (h ! p)\<lparr>nd_name := nm\<rparr>))"
proof (induction d arbitrary: path parent h a h')
  case 0
  then show ?case by simp
next
  case (Suc d)
  have rc: "rc_ok (\<lambda>p par h'. fs_traverse d w r p (Some par) recursive h')"
    unfolding rc_ok_def
  proof (intro allI impI)
    fix p par h a h'
    assume "fs_traverse d w r p (Some par) recursive h = Inr (a, h')" "par < length h"
    with Suc.IH [of p "Some par" h a h']
    show "a = length h \<and> length h < length h' \<and>
        (\<forall>i<length h. i \<noteq> par \<longrightarrow> h' ! i = h ! i) \<and>
        (\<exists>nm. h' ! par = (h ! par)\<lparr>nd_name := nm\<rparr>)"
      by simp
  qed
  show ?case
  proof (cases "isdir w path")
    case False
    from fs_traverse_not_dir [OF Suc.prems(1) False] Suc.prems(2) show ?thesis
      by (auto simp: nth_append intro: exI [of _ "nd_name (h ! the parent)"])
  next
    case True
    from fs_traverse_dir [OF Suc.prems(1) True] obtain n names children h3 children_size sz
      where loop: "traverse_loop (\<lambda>p par h'. fs_traverse d w r p (Some par) recursive h')
             w r path recursive names ([Suc (length h)], h @ [n, n]) = Inr (children, h3)"
        and a: "a = length h"
        and h': "h' = set_directory_record (length h) children parent sz h3"
      by blast
    have pre: "[Suc (length h)] \<noteq> []" "hd [Suc (length h)] < length (h @ [n, n])"
      by simp_all
    note inv = traverse_loop_inv [OF rc loop pre]
    from inv have len: "length (h @ [n, n]) \<le> length h3"
      by (rule conjunct1)
    from inv obtain new where ch: "children = [Suc (length h)] @ new"
      using conjunct1 [OF conjunct2] by blast
    from inv have frame: "\<forall>i<length (h @ [n, n]). i \<noteq> hd [Suc (length h)] \<longrightarrow> h3 ! i = (h @ [n, n]) ! i"
      by (rule conjunct1 [OF conjunct2 [OF conjunct2]])
    have hdc: "hd children = Suc (length h)"
      using ch by simp
    have old: "\<And>i. i < length h \<Longrightarrow> h3 ! i = h ! i"
      using frame by (simp add: nth_append)
    have other: "\<forall>i<length h. parent \<noteq> Some i \<longrightarrow> h' ! i = h ! i"
      using old h' hdc by (simp add: set_directory_record_other)
    have par: "\<forall>p. parent = Some p \<longrightarrow> (\<exists>nm. h' ! p = (h ! p)\<lparr>nd_name := nm\<rparr>)"
    proof (intro allI impI)
      fix p assume p: "parent = Some p"
      with Suc.prems(2) have lt: "p < length h"
        by simp
      with len have "p < length h3"
        by simp
      with lt p h' hdc old [OF lt] have "h' ! p = (h ! p)\<lparr>nd_name := ''..''\<rparr>"
        by (simp add: set_directory_record_parent)
      then show "\<exists>nm. h' ! p = (h ! p)\<lparr>nd_name := nm\<rparr>" ..
    qed
    from len h' have "length h < length h'"
      by simp
    with a other par show ?thesis
      by simp
  qed
qed

lemma fs_traverse_rc_ok: "rc_ok (\<lambda>p par h'. fs_traverse d w r p (Some par) recursive h')"
  unfolding rc_ok_def
proof (intro allI impI)
  fix p par h a h'
  assume "fs_traverse d w r p (Some par) recursive h = Inr (a, h')" "par < length h"
  with fs_traverse_frame [of d w r p "Some par" recursive h a h']
  show "a = length h \<and> length h < length h' \<and>
      (\<forall>i<length h. i \<noteq> par \<longrightarrow> h' ! i = h ! i) \<and>
      (\<exists>nm. h' ! par = (h ! par)\<lparr>nd_name := nm\<rparr>)"
    by simp
qed

lemma pretty_sizes_defined:
  "pretty_sizes hz kvs = Inr r \<Longrightarrow> kv \<in> set kvs \<Longrightarrow> \<exists>s. hz (snd kv) = Inr s"
  by (induction kvs arbitrary: r) (auto split: sum.splits)

lemma humanize_sizes_lookup:
  assumes "humanize_sizes w cs = Inr sz"
  shows "map_of cs k = None \<Longrightarrow> map_of sz k = None"
    and "map_of cs k = Some x \<Longrightarrow> \<exists>s. naturalsize w (Some x) = Inr s \<and> map_of sz k = Some s"
proof -
  show "map_of cs k = None \<Longrightarrow> map_of sz k = None"
    using humanize_sizes_map_of [OF assms, of k] by simp
  assume x: "map_of cs k = Some x"
  then have "(k, x) \<in> set cs"
    by (rule map_of_SomeD)
  then have mem: "(k, Some x) \<in> set (map (\<lambda>kv. (fst kv, Some (snd kv))) cs)"
    by force
  from assms have ps: "pretty_sizes (naturalsize w) (map (\<lambda>kv. (fst kv, Some (snd kv))) cs) = Inr sz"
    unfolding humanize_sizes_def .
  from pretty_sizes_defined [OF ps mem] obtain s where "naturalsize w (Some x) = Inr s"
    by auto
  with humanize_sizes_map_of [OF assms, of k] x
  show "\<exists>s. naturalsize w (Some x) = Inr s \<and> map_of sz k = Some s"
    by simp
qed

lemma listed_child_same: "h' ! c = h ! c \<Longrightarrow>
  listed_child w r path recursive names h' c = listed_child w r path recursive names h c"
  by (simp add: listed_child_def)

lemma fs_traverse_dir_result:
  assumes run: "fs_traverse (Suc d) w r path parent recursive h = Inr (a, h')"
    and dir: "isdir w path"
    and par: "\<forall>p. parent = Some p \<longrightarrow> p < length h"
  shows "\<exists>n names cs children_size sz.
     fs_extract w r path = Inr n \<and> listdir w path = Inr names \<and> a = length h \<and>
     Suc (Suc (length h)) \<le> length h' \<and>
     (\<forall>c\<in>set cs. Suc (length h) < c \<and> c < length h' \<and>
        listed_child w r path recursive names h' c) \<and>
     sum_sizes (pyfloat w) (map (\<lambda>c. nd_size (h' ! c)) cs) [] = Inr children_size \<and>
     humanize_sizes w children_size = Inr sz \<and>
     h' ! length h =
       n\<lparr>nd_size := sz,
         nd_nodes := Some (Suc (length h) # (case parent of None \<Rightarrow> [] | Some p \<Rightarrow> [p]) @ cs)\<rparr> \<and>
     h' ! Suc (length h) = n\<lparr>nd_size := sz, nd_name := ''.''\<rparr> \<and>
     (\<forall>p. parent = Some p \<longrightarrow> h' ! p = (h ! p)\<lparr>nd_name := ''..''\<rparr>)"
proof -
  from fs_traverse_dir [OF run dir] obtain n names children h3 children_size sz
    where n: "fs_extract w r path = Inr n" and names: "listdir w path = Inr names"
      and loop: "traverse_loop (\<lambda>p par h'. fs_traverse d w r p (Some par) recursive h')
             w r path recursive names ([Suc (length h)], h @ [n, n]) = Inr (children, h3)"
      and sum: "sum_sizes (pyfloat w) (map (\<lambda>c. nd_size (h3 ! c)) (tl children)) [] = Inr children_size"
      and hum: "humanize_sizes w children_size = Inr sz"
      and a: "a = length h"
      and h': "h' = set_directory_record (length h) children parent sz h3"
    by blast
  have pre: "[Suc (length h)] \<noteq> []" "hd [Suc (length h)] < length (h @ [n, n])"
    by simp_all
  note inv = traverse_loop_inv [OF fs_traverse_rc_ok loop pre]
  from inv have len: "length (h @ [n, n]) \<le> length h3"
    by (rule conjunct1)
  from inv obtain cs where ch: "children = [Suc (length h)] @ cs"
    and cs: "\<forall>c\<in>set cs. length (h @ [n, n]) \<le> c \<and> c < length h3 \<and>
               listed_child w r path recursive names h3 c"
    using conjunct1 [OF conjunct2] by blast
  from inv have frame: "\<forall>i<length (h @ [n, n]). i \<noteq> hd [Suc (length h)] \<longrightarrow> h3 ! i = (h @ [n, n]) ! i"
    by (rule conjunct1 [OF conjunct2 [OF conjunct2]])
  from inv obtain nm where self: "h3 ! hd [Suc (length h)] = ((h @ [n, n]) ! hd [Suc (length h)])\<lparr>nd_name := nm\<rparr>"
    using conjunct2 [OF conjunct2 [OF conjunct2]] by blast
  have hdc: "hd children = Suc (length h)" and tlc: "tl children = cs"
    using ch by simp_all
  have pne: "parent \<noteq> Some (length h)" "parent \<noteq> Some (Suc (length h))"
    using par by auto
  have keep: "\<And>c. c \<in> set cs \<Longrightarrow> h' ! c = h3 ! c"
  proof -
    fix c assume "c \<in> set cs"
    with cs have "Suc (Suc (length h)) \<le> c"
      by auto
    with par have "c \<noteq> length h" "c \<noteq> hd children" "parent \<noteq> Some c"
      using hdc by auto
    then show "h' ! c = h3 ! c"
      unfolding h' by (rule set_directory_record_other)
  qed
  have lenh': "length h' = length h3"
    unfolding h' by simp
  have cs': "\<forall>c\<in>set cs. Suc (length h) < c \<and> c < length h' \<and>
        listed_child w r path recursive names h' c"
  proof
    fix c assume c: "c \<in> set cs"
    with cs have "Suc (Suc (length h)) \<le> c" "c < length h3" "listed_child w r path recursive names h3 c"
      by auto
    with listed_child_same [OF keep [OF c], of w r path recursive names] lenh'
    show "Suc (length h) < c \<and> c < length h' \<and>
        listed_child w r path recursive names h' c"
      by simp
  qed
  have "map (\<lambda>c. nd_size (h' ! c)) cs = map (\<lambda>c. nd_size (h3 ! c)) cs"
    by (rule map_cong) (simp_all add: keep)
  with sum tlc have sum': "sum_sizes (pyfloat w) (map (\<lambda>c. nd_size (h' ! c)) cs) [] = Inr children_size"
    by (simp only:)
  have fs3: "h3 ! length h = n"
    using frame by (simp add: nth_append)
  have c03: "h3 ! Suc (length h) = n\<lparr>nd_name := nm\<rparr>"
    using self by (simp add: nth_append)
  have "children = Suc (length h) # cs"
    using ch by simp
  then have nodes: "(case parent of None \<Rightarrow> children | Some p \<Rightarrow> hd children # p # tl children) =
      Suc (length h) # (case parent of None \<Rightarrow> [] | Some p \<Rightarrow> [p]) @ cs"
    by (simp split: option.splits)
  have "length h < length h3" "length h \<noteq> hd children"
    using len hdc by simp_all
  from set_directory_record_fs [OF this pne(1), of sz] fs3 nodes
  have fs': "h' ! length h = n\<lparr>nd_size := sz,
         nd_nodes := Some (Suc (length h) # (case parent of None \<Rightarrow> [] | Some p \<Rightarrow> [p]) @ cs)\<rparr>"
    unfolding h' by simp
  have "hd children < length h3" "parent \<noteq> Some (hd children)"
    using len hdc pne by simp_all
  from set_directory_record_self [OF this(1) \<open>length h \<noteq> hd children\<close> this(2), of sz] c03 hdc
  have c0': "h' ! Suc (length h) = n\<lparr>nd_size := sz, nd_name := ''.''\<rparr>"
    unfolding h' by simp
  have par': "\<forall>p. parent = Some p \<longrightarrow> h' ! p = (h ! p)\<lparr>nd_name := ''..''\<rparr>"
  proof (intro allI impI)
    fix p assume p: "parent = Some p"
    with par have lt: "p < length h"
      by simp
    with frame have "h3 ! p = h ! p"
      by (simp add: nth_append)
    moreover have "p < length h3" "p \<noteq> length h" "p \<noteq> hd children"
      using lt len hdc by simp_all
    ultimately show "h' ! p = (h ! p)\<lparr>nd_name := ''..''\<rparr>"
      unfolding h' p by (simp add: set_directory_record_parent)
  qed
  from len lenh' have len': "Suc (Suc (length h)) \<le> length h'"
    by simp
  show ?thesis
    by (rule exI [of _ n], rule exI [of _ names], rule exI [of _ cs],
        rule exI [of _ children_size], rule exI [of _ sz])
       (intro conjI n names a len' cs' sum' hum fs' c0' par')
qed

lemma FsModel_size_not_file:
  assumes "FsModel_type w p \<noteq> Some ''file''" "FsModel_type w p \<noteq> Some ''link''"
    "FsModel_type w p \<noteq> Some ''link-broken''" "repo_path r \<noteq> p"
  shows "FsModel_size w r p = Inr (map (\<lambda>k. (k, Some 0)) size_keys)"
  using assms by (simp add: FsModel_size_def size_keys_def)

lemma FsModel_size_dangling:
  assumes "FsModel_type w p = Some ''link-broken''" "\<not> (is_annex r \<and> is_under_annex r p)"
    "repo_path r \<noteq> p"
  shows "FsModel_size w r p = Inr (map (\<lambda>k. (k, Some 0)) size_keys)"
  using assms by (auto simp: FsModel_size_def size_keys_def)

lemma FsModel_size_annexed:
  assumes "FsModel_type w p = Some ''link-broken''" "is_annex r" "is_under_annex r p"
    "repo_path r \<noteq> p"
  shows "FsModel_size w r p =
     Inr [(''total'', Some (info_size r p)),
          (''ondisk'', Some (if file_has_content r p then info_size r p else 0)),
          (''git'', Some 0), (''annex'', Some 0), (''annex_worktree'', Some 0)]"
  using assms by (auto simp: FsModel_size_def Let_def)

lemma pretty_sizes_const:
  "hz v = Inr z \<Longrightarrow> pretty_sizes hz (map (\<lambda>k. (k, v)) ks) = Inr (map (\<lambda>k. (k, z)) ks)"
  by (induction ks) auto

lemma category_sum_zero:
  "(\<And>kv. kv \<in> set sz \<Longrightarrow> size_value pf (snd kv) = 0) \<Longrightarrow> category_sum pf k sz = 0"
  by (induction sz) auto

lemma traverse_step_nonrec:
  "traverse_step rc w r path False node st = traverse_step rc' w r path False node st"
  by (auto simp: traverse_step_def Let_def split: sum.splits)

lemma traverse_loop_nonrec:
  "traverse_loop rc w r path False names st = traverse_loop rc' w r path False names st"
  by (induction names arbitrary: st)
     (auto simp: traverse_step_nonrec [of rc _ _ _ _ _ rc'] split: sum.splits)

lemma fs_traverse_nonrec_depth:
  "fs_traverse (Suc d) w r path parent False h = fs_traverse (Suc 0) w r path parent False h"
  unfolding fs_traverse.simps
    traverse_loop_nonrec [of "\<lambda>p par h'. fs_traverse d w r p (Some par) False h'" _ _ _ _ _
        "\<lambda>p par h'. Inl RecursionError"]
  by (rule refl)

section \<open>Properties of the tree walker\<close>

text \<open>
  C1.  When \<open>fs_traverse\<close> returns for a directory, the record's \<open>nodes\<close> are the
  self entry, the parent entry when one was given, and the listed children \<open>cs\<close>;
  every size string of a child parses; and for every category \<open>k\<close> that some child
  has, the record's size under \<open>k\<close> is \<open>naturalsize\<close> of the sum, over the children,
  of the numbers \<open>machinesize\<close> reads from their sizes under \<open>k\<close> (a child without
  \<open>k\<close> adds nothing).  A category no child has is absent.  The self entry carries the
  same size.
\<close>

theorem fs_traverse_rollup:
  assumes run: "fs_traverse (Suc d) w r path parent recursive h = Inr (a, h')"
    and dir: "isdir w path"
    and par: "\<forall>p. parent = Some p \<longrightarrow> p < length h"
  shows "\<exists>self cs.
     nd_nodes (h' ! a) = Some (self # (case parent of None \<Rightarrow> [] | Some p \<Rightarrow> [p]) @ cs) \<and>
     nd_size (h' ! self) = nd_size (h' ! a) \<and>
     (\<forall>c\<in>set cs. \<forall>kv\<in>set (nd_size (h' ! c)).
        \<exists>x. machinesize (pyfloat w) (PyStr (snd kv)) = Inr x) \<and>
     (\<forall>k. if \<exists>c\<in>set cs. k \<in> fst ` set (nd_size (h' ! c))
          then \<exists>s. naturalsize w
                      (Some (sum_list (map (\<lambda>c. category_sum (pyfloat w) k (nd_size (h' ! c))) cs))) =
                    Inr s \<and>
                    map_of (nd_size (h' ! a)) k = Some s
          else map_of (nd_size (h' ! a)) k = None)"
proof -
  from fs_traverse_dir_result [OF run dir par] obtain n names cs children_size sz
    where a: "a = length h"
      and sum: "sum_sizes (pyfloat w) (map (\<lambda>c. nd_size (h' ! c)) cs) [] = Inr children_size"
      and hum: "humanize_sizes w children_size = Inr sz"
      and fs: "h' ! length h =
         n\<lparr>nd_size := sz,
           nd_nodes := Some (Suc (length h) # (case parent of None \<Rightarrow> [] | Some p \<Rightarrow> [p]) @ cs)\<rparr>"
      and c0: "h' ! Suc (length h) = n\<lparr>nd_size := sz, nd_name := ''.''\<rparr>"
    by blast
  have parses: "\<forall>c\<in>set cs. \<forall>kv\<in>set (nd_size (h' ! c)).
        \<exists>x. machinesize (pyfloat w) (PyStr (snd kv)) = Inr x"
  proof (intro ballI)
    fix c kv assume "c \<in> set cs" "kv \<in> set (nd_size (h' ! c))"
    then have "nd_size (h' ! c) \<in> set (map (\<lambda>c. nd_size (h' ! c)) cs)"
      by simp
    from sum_sizes_parses [OF sum this \<open>kv \<in> set (nd_size (h' ! c))\<close>]
    show "\<exists>x. machinesize (pyfloat w) (PyStr (snd kv)) = Inr x" .
  qed
  have total: "\<And>k. map_of children_size k =
       (if \<exists>c\<in>set cs. k \<in> fst ` set (nd_size (h' ! c))
        then Some (sum_list (map (\<lambda>c. category_sum (pyfloat w) k (nd_size (h' ! c))) cs))
        else None)"
    using sum_sizes_map_of [OF sum] by (simp add: comp_def)
  have cat: "\<forall>k. if \<exists>c\<in>set cs. k \<in> fst ` set (nd_size (h' ! c))
          then \<exists>s. naturalsize w
                      (Some (sum_list (map (\<lambda>c. category_sum (pyfloat w) k (nd_size (h' ! c))) cs))) =
                    Inr s \<and> map_of sz k = Some s
          else map_of sz k = None"
  proof
    fix k
    show "if \<exists>c\<in>set cs. k \<in> fst ` set (nd_size (h' ! c))
          then \<exists>s. naturalsize w
                      (Some (sum_list (map (\<lambda>c. category_sum (pyfloat w) k (nd_size (h' ! c))) cs))) =
                    Inr s \<and> map_of sz k = Some s
          else map_of sz k = None"
    proof (cases "\<exists>c\<in>set cs. k \<in> fst ` set (nd_size (h' ! c))")
      case True
      with total [of k] humanize_sizes_lookup(2) [OF hum, of k] show ?thesis
        by simp
    next
      case False
      with total [of k] humanize_sizes_lookup(1) [OF hum, of k] show ?thesis
        by simp
    qed
  qed
  from fs c0 a have "nd_nodes (h' ! a) =
      Some (Suc (length h) # (case parent of None \<Rightarrow> [] | Some p \<Rightarrow> [p]) @ cs)"
    "nd_size (h' ! Suc (length h)) = nd_size (h' ! a)" "nd_size (h' ! a) = sz"
    by simp_all
  with parses cat show ?thesis
    by (intro exI [of _ "Suc (length h)"] exI [of _ cs]) simp
qed

text \<open>
  C5, as amended.  Every listed child of a traversed directory is an entry of its
  listing whose name is not empty, does not start with a dot and is not
  \<open>index.html\<close>; so no dot-file (the directory \<open>.git\<close> and the sidecar \<open>.dir.json\<close>
  among them) and no \<open>index.html\<close> is ever listed.  A directory that holds a \<open>.git\<close>
  directory is listed, because the listing asks \<open>ignored\<close> with \<open>only_hidden=True\<close>.
\<close>

theorem fs_traverse_children_visible:
  assumes run: "fs_traverse (Suc d) w r path parent recursive h = Inr (a, h')"
    and dir: "isdir w path"
    and par: "\<forall>p. parent = Some p \<longrightarrow> p < length h"
  shows "\<exists>self cs names.
     listdir w path = Inr names \<and>
     nd_nodes (h' ! a) = Some (self # (case parent of None \<Rightarrow> [] | Some p \<Rightarrow> [p]) @ cs) \<and>
     (\<forall>c\<in>set cs. nd_name (h' ! c) \<in> set names \<and> nd_name (h' ! c) \<noteq> [] \<and>
        hd (nd_name (h' ! c)) \<noteq> CHR ''.'' \<and> nd_name (h' ! c) \<noteq> ''index.html'' \<and>
        nd_path (h' ! c) = opj path [nd_name (h' ! c)])"
proof -
  from fs_traverse_dir_result [OF run dir par] obtain n names cs sz
    where names: "listdir w path = Inr names" and a: "a = length h"
      and cs: "\<forall>c\<in>set cs. Suc (length h) < c \<and> c < length h' \<and>
        listed_child w r path recursive names h' c"
      and fs: "h' ! length h =
         n\<lparr>nd_size := sz,
           nd_nodes := Some (Suc (length h) # (case parent of None \<Rightarrow> [] | Some p \<Rightarrow> [p]) @ cs)\<rparr>"
    by blast
  have "\<forall>c\<in>set cs. nd_name (h' ! c) \<in> set names \<and> nd_name (h' ! c) \<noteq> [] \<and>
        hd (nd_name (h' ! c)) \<noteq> CHR ''.'' \<and> nd_name (h' ! c) \<noteq> ''index.html'' \<and>
        nd_path (h' ! c) = opj path [nd_name (h' ! c)]"
  proof
    fix c assume "c \<in> set cs"
    with cs have "listed_child w r path recursive names h' c"
      by simp
    then obtain node m s where node: "node \<in> set names" "visible node"
      and m: "fs_extract w r (opj path [node]) = Inr m" and c: "h' ! c = m\<lparr>nd_size := s\<rparr>"
      unfolding listed_child_def by blast
    from fs_extract_fields [OF m] node(2) have "nd_name m = node" "nd_path m = opj path [node]"
      by (simp_all add: visible_def)
    with node c show "nd_name (h' ! c) \<in> set names \<and> nd_name (h' ! c) \<noteq> [] \<and>
        hd (nd_name (h' ! c)) \<noteq> CHR ''.'' \<and> nd_name (h' ! c) \<noteq> ''index.html'' \<and>
        nd_path (h' ! c) = opj path [nd_name (h' ! c)]"
      by (simp add: visible_def)
  qed
  with names a fs show ?thesis
    by (intro exI [of _ "Suc (length h)"] exI [of _ cs] exI [of _ names]) simp
qed

text \<open>
  C10, as amended.  With a parent at address \<open>p\<close>, the record's \<open>nodes\<close> are the self
  entry (named \<open>.\<close>), then the address \<open>p\<close> itself, then the children, none of which
  is \<open>p\<close>: the second entry is the caller's record, shared, not a copy.  The call
  overwrites the name of the caller's record with \<open>..\<close>, leaves its other fields as
  they were, and changes no other record that existed before the call.
\<close>

theorem fs_traverse_parent_entry:
  assumes run: "fs_traverse (Suc d) w r path (Some p) recursive h = Inr (a, h')"
    and dir: "isdir w path"
    and par: "p < length h"
  shows "\<exists>self cs.
     nd_nodes (h' ! a) = Some (self # p # cs) \<and> self \<noteq> p \<and> p \<notin> set cs \<and>
     nd_name (h' ! self) = ''.'' \<and>
     h' ! p = (h ! p)\<lparr>nd_name := ''..''\<rparr> \<and>
     (\<forall>i<length h. i \<noteq> p \<longrightarrow> h' ! i = h ! i)"
proof -
  have par': "\<forall>q. Some p = Some q \<longrightarrow> q < length h"
    using par by simp
  from fs_traverse_dir_result [OF run dir par'] obtain n names cs sz
    where a: "a = length h"
      and cs: "\<forall>c\<in>set cs. Suc (length h) < c \<and> c < length h' \<and>
        listed_child w r path recursive names h' c"
      and fs: "h' ! length h = n\<lparr>nd_size := sz, nd_nodes := Some (Suc (length h) # [p] @ cs)\<rparr>"
      and c0: "h' ! Suc (length h) = n\<lparr>nd_size := sz, nd_name := ''.''\<rparr>"
      and pp: "h' ! p = (h ! p)\<lparr>nd_name := ''..''\<rparr>"
    by auto
  from fs_traverse_frame [OF run par'] have frame: "\<forall>i<length h. i \<noteq> p \<longrightarrow> h' ! i = h ! i"
    by simp
  from cs par have "p \<notin> set cs"
    by auto
  with a fs c0 pp frame par show ?thesis
    by (intro exI [of _ "Suc (length h)"] exI [of _ cs]) simp
qed

lemma fs_extract_sizes:
  "fs_extract w r p = Inr n \<Longrightarrow>
     \<exists>sz. FsModel_size w r p = Inr sz \<and> pretty_sizes (naturalsize w) sz = Inr (nd_size n)"
  by (auto simp: fs_extract_def split: sum.splits)

text \<open>
  C4, as amended.  The size dictionary of every record \<open>fs_extract\<close> builds has exactly
  the five categories.  The size of a traversed directory is rebuilt from its children:
  for a directory whose listing is empty it is the empty dictionary, with no category at
  all, and the \<open>nodes\<close> are the self entry, named \<open>.\<close>, followed by the parent entry
  when a parent was given.
\<close>

theorem size_categories:
  "(fs_extract w r p = Inr n \<longrightarrow> map fst (nd_size n) = size_keys) \<and>
   (fs_traverse (Suc d) w r path parent recursive h = Inr (a, h') \<and> isdir w path \<and>
    listdir w path = Inr [] \<and> (\<forall>q. parent = Some q \<longrightarrow> q < length h) \<longrightarrow>
      nd_size (h' ! a) = [] \<and>
      nd_nodes (h' ! a) = Some (Suc (length h) # (case parent of None \<Rightarrow> [] | Some q \<Rightarrow> [q])) \<and>
      nd_name (h' ! Suc (length h)) = ''.'')"
proof (rule conjI; rule impI)
  assume "fs_extract w r p = Inr n"
  then show "map fst (nd_size n) = size_keys"
    by (simp add: fs_extract_fields)
next
  assume asm: "fs_traverse (Suc d) w r path parent recursive h = Inr (a, h') \<and> isdir w path \<and>
    listdir w path = Inr [] \<and> (\<forall>q. parent = Some q \<longrightarrow> q < length h)"
  then have run: "fs_traverse (Suc d) w r path parent recursive h = Inr (a, h')"
    and dir: "isdir w path" and empty: "listdir w path = Inr []"
    and par: "\<forall>q. parent = Some q \<longrightarrow> q < length h"
    by simp_all
  from fs_traverse_dir_result [OF run dir par] empty obtain n cs children_size sz
    where a: "a = length h"
      and cs: "\<forall>c\<in>set cs. Suc (length h) < c \<and> c < length h' \<and>
        listed_child w r path recursive [] h' c"
      and sum: "sum_sizes (pyfloat w) (map (\<lambda>c. nd_size (h' ! c)) cs) [] = Inr children_size"
      and hum: "humanize_sizes w children_size = Inr sz"
      and fs: "h' ! length h =
         n\<lparr>nd_size := sz,
           nd_nodes := Some (Suc (length h) # (case parent of None \<Rightarrow> [] | Some p \<Rightarrow> [p]) @ cs)\<rparr>"
      and c0: "h' ! Suc (length h) = n\<lparr>nd_size := sz, nd_name := ''.''\<rparr>"
    by auto
  from cs have "cs = []"
    by (cases cs) (auto simp: listed_child_def)
  with sum have "children_size = []"
    by simp
  with hum have "sz = []"
    by (simp add: humanize_sizes_def)
  with a fs c0 \<open>cs = []\<close>
  show "nd_size (h' ! a) = [] \<and>
      nd_nodes (h' ! a) = Some (Suc (length h) # (case parent of None \<Rightarrow> [] | Some q \<Rightarrow> [q])) \<and>
      nd_name (h' ! Suc (length h)) = ''.''"
    by simp
qed

text \<open>
  C6, as amended.  A non-recursive \<open>fs_traverse\<close> makes no recursive call: one frame
  of the call stack is enough whatever the tree below.  Each listed child then carries
  exactly the record \<open>fs_extract\<close> gives for it; for a child that is not a file or a
  link (a sub-directory) and is not the repository root, every one of the five
  categories is \<open>naturalsize\<close> of 0, and where that string parses to 0 the child adds 0
  to the roll-up of every category.
\<close>

theorem non_recursive_subdir:
  "fs_traverse (Suc d) w r path parent False h = fs_traverse (Suc 0) w r path parent False h \<and>
   (fs_traverse (Suc d) w r path parent False h = Inr (a, h') \<and> isdir w path \<and>
    (\<forall>q. parent = Some q \<longrightarrow> q < length h) \<longrightarrow>
      (\<exists>self cs.
         nd_nodes (h' ! a) = Some (self # (case parent of None \<Rightarrow> [] | Some q \<Rightarrow> [q]) @ cs) \<and>
         (\<forall>c\<in>set cs.
            fs_extract w r (nd_path (h' ! c)) = Inr (h' ! c) \<and>
            (nd_type (h' ! c) \<noteq> Some ''file'' \<and> nd_type (h' ! c) \<noteq> Some ''link'' \<and>
             nd_type (h' ! c) \<noteq> Some ''link-broken'' \<and> nd_path (h' ! c) \<noteq> repo_path r \<longrightarrow>
               map fst (nd_size (h' ! c)) = size_keys \<and>
               (\<forall>kv\<in>set (nd_size (h' ! c)). naturalsize w (Some 0) = Inr (snd kv)) \<and>
               ((\<forall>s. naturalsize w (Some 0) = Inr s \<longrightarrow> machinesize (pyfloat w) (PyStr s) = Inr 0) \<longrightarrow>
                  (\<forall>k. category_sum (pyfloat w) k (nd_size (h' ! c)) = 0))))))"
proof (intro conjI impI)
  show "fs_traverse (Suc d) w r path parent False h = fs_traverse (Suc 0) w r path parent False h"
    by (rule fs_traverse_nonrec_depth)
next
  assume asm: "fs_traverse (Suc d) w r path parent False h = Inr (a, h') \<and> isdir w path \<and>
    (\<forall>q. parent = Some q \<longrightarrow> q < length h)"
  then have run: "fs_traverse (Suc d) w r path parent False h = Inr (a, h')"
    and dir: "isdir w path" and par: "\<forall>q. parent = Some q \<longrightarrow> q < length h"
    by simp_all
  from fs_traverse_dir_result [OF run dir par] obtain n names cs sz
    where a: "a = length h"
      and cs: "\<forall>c\<in>set cs. Suc (length h) < c \<and> c < length h' \<and>
        listed_child w r path False names h' c"
      and fs: "h' ! length h =
         n\<lparr>nd_size := sz,
           nd_nodes := Some (Suc (length h) # (case parent of None \<Rightarrow> [] | Some p \<Rightarrow> [p]) @ cs)\<rparr>"
    by blast
  have each: "\<forall>c\<in>set cs.
            fs_extract w r (nd_path (h' ! c)) = Inr (h' ! c) \<and>
            (nd_type (h' ! c) \<noteq> Some ''file'' \<and> nd_type (h' ! c) \<noteq> Some ''link'' \<and>
             nd_type (h' ! c) \<noteq> Some ''link-broken'' \<and> nd_path (h' ! c) \<noteq> repo_path r \<longrightarrow>
               map fst (nd_size (h' ! c)) = size_keys \<and>
               (\<forall>kv\<in>set (nd_size (h' ! c)). naturalsize w (Some 0) = Inr (snd kv)) \<and>
               ((\<forall>s. naturalsize w (Some 0) = Inr s \<longrightarrow> machinesize (pyfloat w) (PyStr s) = Inr 0) \<longrightarrow>
                  (\<forall>k. category_sum (pyfloat w) k (nd_size (h' ! c)) = 0)))"
  proof
    fix c assume "c \<in> set cs"
    with cs have "listed_child w r path False names h' c"
      by simp
    then obtain node where ex: "fs_extract w r (opj path [node]) = Inr (h' ! c)"
      unfolding listed_child_def by auto
    note fields = fs_extract_fields [OF ex]
    from fields have pth: "nd_path (h' ! c) = opj path [node]"
      by simp
    have zero: "map fst (nd_size (h' ! c)) = size_keys \<and>
               (\<forall>kv\<in>set (nd_size (h' ! c)). naturalsize w (Some 0) = Inr (snd kv)) \<and>
               ((\<forall>s. naturalsize w (Some 0) = Inr s \<longrightarrow> machinesize (pyfloat w) (PyStr s) = Inr 0) \<longrightarrow>
                  (\<forall>k. category_sum (pyfloat w) k (nd_size (h' ! c)) = 0))"
      if ty: "nd_type (h' ! c) \<noteq> Some ''file''" "nd_type (h' ! c) \<noteq> Some ''link''"
        "nd_type (h' ! c) \<noteq> Some ''link-broken''" and rp: "nd_path (h' ! c) \<noteq> repo_path r"
    proof -
      from ty fields rp pth
      have sz: "FsModel_size w r (opj path [node]) = Inr (map (\<lambda>k. (k, Some 0)) size_keys)"
        by (intro FsModel_size_not_file) auto
      with fs_extract_sizes [OF ex]
      have ps: "pretty_sizes (naturalsize w) (map (\<lambda>k. (k, Some 0)) size_keys) =
          Inr (nd_size (h' ! c))"
        by auto
      have vals: "\<forall>kv\<in>set (nd_size (h' ! c)). naturalsize w (Some 0) = Inr (snd kv)"
      proof
        fix kv assume "kv \<in> set (nd_size (h' ! c))"
        then have "(fst kv, snd kv) \<in> set (nd_size (h' ! c))"
          by simp
        from pretty_sizes_values [OF ps this] show "naturalsize w (Some 0) = Inr (snd kv)"
          by auto
      qed
      have "\<forall>k. category_sum (pyfloat w) k (nd_size (h' ! c)) = 0"
        if "\<forall>s. naturalsize w (Some 0) = Inr s \<longrightarrow> machinesize (pyfloat w) (PyStr s) = Inr 0"
      proof
        fix k
        show "category_sum (pyfloat w) k (nd_size (h' ! c)) = 0"
        proof (rule category_sum_zero)
          fix kv assume "kv \<in> set (nd_size (h' ! c))"
          with vals that show "size_value (pyfloat w) (snd kv) = 0"
            by (simp add: size_value_def)
        qed
      qed
      with fields vals show ?thesis
        by simp
    qed
    from ex pth zero show "fs_extract w r (nd_path (h' ! c)) = Inr (h' ! c) \<and>
            (nd_type (h' ! c) \<noteq> Some ''file'' \<and> nd_type (h' ! c) \<noteq> Some ''link'' \<and>
             nd_type (h' ! c) \<noteq> Some ''link-broken'' \<and> nd_path (h' ! c) \<noteq> repo_path r \<longrightarrow>
               map fst (nd_size (h' ! c)) = size_keys \<and>
               (\<forall>kv\<in>set (nd_size (h' ! c)). naturalsize w (Some 0) = Inr (snd kv)) \<and>
               ((\<forall>s. naturalsize w (Some 0) = Inr s \<longrightarrow> machinesize (pyfloat w) (PyStr s) = Inr 0) \<longrightarrow>
                  (\<forall>k. category_sum (pyfloat w) k (nd_size (h' ! c)) = 0)))"
      by simp
  qed
  from a fs have "nd_nodes (h' ! a) =
      Some (Suc (length h) # (case parent of None \<Rightarrow> [] | Some q \<Rightarrow> [q]) @ cs)"
    by simp
  with each show "\<exists>self cs.
         nd_nodes (h' ! a) = Some (self # (case parent of None \<Rightarrow> [] | Some q \<Rightarrow> [q]) @ cs) \<and>
         (\<forall>c\<in>set cs.
            fs_extract w r (nd_path (h' ! c)) = Inr (h' ! c) \<and>
            (nd_type (h' ! c) \<noteq> Some ''file'' \<and> nd_type (h' ! c) \<noteq> Some ''link'' \<and>
             nd_type (h' ! c) \<noteq> Some ''link-broken'' \<and> nd_path (h' ! c) \<noteq> repo_path r \<longrightarrow>
               map fst (nd_size (h' ! c)) = size_keys \<and>
               (\<forall>kv\<in>set (nd_size (h' ! c)). naturalsize w (Some 0) = Inr (snd kv)) \<and>
               ((\<forall>s. naturalsize w (Some 0) = Inr s \<longrightarrow> machinesize (pyfloat w) (PyStr s) = Inr 0) \<longrightarrow>
                  (\<forall>k. category_sum (pyfloat w) k (nd_size (h' ! c)) = 0))))"
    by blast
qed

lemma ignored_defined:
  "node \<noteq> [] \<Longrightarrow> \<exists>b. ignored w (opj path [node]) only_hidden = Inr b"
  by (auto simp: ignored_def)

text \<open>
  C8, as amended.  A symbolic link whose target does not exist is classified
  \<open>link-broken\<close>.  When the annex tracks it, its total is the size the annex records
  and its on-disk size is that size or 0, as the content is present or not.  Otherwise
  all five categories are 0, whatever \<open>lstat\<close> says of any path; and provided \<open>lstat\<close>
  of the link itself succeeds (for the date) and \<open>naturalsize\<close> renders 0,
  \<open>fs_extract\<close> and \<open>fs_traverse\<close> on the link return, and the step of the directory
  loop for this entry returns: the entry does not make the walk of its directory fail.
\<close>

theorem broken_link_size:
  assumes link: "islink w p" and dangling: "FsModel_symlink w p = None"
    and root: "repo_path r \<noteq> p"
  shows "FsModel_type w p = Some ''link-broken'' \<and>
     (is_annex r \<and> is_under_annex r p \<longrightarrow>
        FsModel_size w r p =
          Inr [(''total'', Some (info_size r p)),
               (''ondisk'', Some (if file_has_content r p then info_size r p else 0)),
               (''git'', Some 0), (''annex'', Some 0), (''annex_worktree'', Some 0)]) \<and>
     (\<not> (is_annex r \<and> is_under_annex r p) \<longrightarrow>
        FsModel_size w r p = Inr (map (\<lambda>k. (k, Some 0)) size_keys) \<and>
        (\<forall>st z. lstat w p = Some st \<and> naturalsize w (Some 0) = Inr z \<and> \<not> isdir w p \<longrightarrow>
           (\<exists>n. fs_extract w r p = Inr n \<and> nd_type n = Some ''link-broken'' \<and>
                nd_size n = map (\<lambda>k. (k, z)) size_keys \<and>
                fs_traverse (Suc d) w r p parent recursive h = Inr (length h, h @ [n])) \<and>
           (\<forall>path node state. p = opj path [node] \<and> node \<noteq> [] \<longrightarrow>
              (\<exists>state'. traverse_step (\<lambda>q par h'. fs_traverse (Suc d) w r q (Some par) recursive h')
                           w r path recursive node state = Inr state'))))"
proof -
  from link dangling have ty: "FsModel_type w p = Some ''link-broken''"
    by (simp add: FsModel_type_def)
  have annexed: "FsModel_size w r p =
          Inr [(''total'', Some (info_size r p)),
               (''ondisk'', Some (if file_has_content r p then info_size r p else 0)),
               (''git'', Some 0), (''annex'', Some 0), (''annex_worktree'', Some 0)]"
    if "is_annex r \<and> is_under_annex r p"
    using that ty root by (intro FsModel_size_annexed) simp_all
  have plain: "FsModel_size w r p = Inr (map (\<lambda>k. (k, Some 0)) size_keys) \<and>
        (\<forall>st z. lstat w p = Some st \<and> naturalsize w (Some 0) = Inr z \<and> \<not> isdir w p \<longrightarrow>
           (\<exists>n. fs_extract w r p = Inr n \<and> nd_type n = Some ''link-broken'' \<and>
                nd_size n = map (\<lambda>k. (k, z)) size_keys \<and>
                fs_traverse (Suc d) w r p parent recursive h = Inr (length h, h @ [n])) \<and>
           (\<forall>path node state. p = opj path [node] \<and> node \<noteq> [] \<longrightarrow>
              (\<exists>state'. traverse_step (\<lambda>q par h'. fs_traverse (Suc d) w r q (Some par) recursive h')
                           w r path recursive node state = Inr state')))"
    if na: "\<not> (is_annex r \<and> is_under_annex r p)"
  proof (rule conjI, goal_cases)
    case 1
    from ty na root show sz: "FsModel_size w r p = Inr (map (\<lambda>k. (k, Some 0)) size_keys)"
      by (rule FsModel_size_dangling)
  next
    case 2
    have sz: "FsModel_size w r p = Inr (map (\<lambda>k. (k, Some 0)) size_keys)"
      using ty na root by (rule FsModel_size_dangling)
    show ?case
    proof (intro allI impI)
      fix st z
      assume a: "lstat w p = Some st \<and> naturalsize w (Some 0) = Inr z \<and> \<not> isdir w p"
      define n where "n = \<lparr>nd_name = (if leaf_name p \<noteq> [] then leaf_name p else leaf_name (repo_path r)),
                         nd_path = p, nd_repo = repo_path r, nd_type = FsModel_type w p,
                         nd_size = map (\<lambda>k. (k, z)) size_keys,
                         nd_date = st_mtime st, nd_nodes = None\<rparr>"
      from a have ps: "pretty_sizes (naturalsize w) (map (\<lambda>k. (k, Some 0)) size_keys) =
          Inr (map (\<lambda>k. (k, z)) size_keys)"
        by (simp add: pretty_sizes_const)
      with sz a have ex: "fs_extract w r p = Inr n"
        by (simp add: fs_extract_def FsModel_date_def n_def)
      with a have run: "\<And>d parent recursive h.
          fs_traverse (Suc d) w r p parent recursive h = Inr (length h, h @ [n])"
        by simp
      have step: "\<exists>state'. traverse_step (\<lambda>q par h'. fs_traverse (Suc d) w r q (Some par) recursive h')
                           w r path recursive node state = Inr state'"
        if pn: "p = opj path [node] \<and> node \<noteq> []" for path node state
      proof -
        from pn have peq: "opj path [node] = p" and nn: "node \<noteq> []"
          by simp_all
        from nn ignored_defined [of node w path True] obtain b1
          where b1: "ignored w p True = Inr b1"
          unfolding peq by blast
        from nn ignored_defined [of node w path False] obtain b2
          where b2: "ignored w p False = Inr b2"
          unfolding peq by blast
        show ?thesis
          unfolding traverse_step_def Let_def peq
          by (cases b1; cases b2; cases recursive)
             (simp_all del: fs_traverse.simps add: b1 b2 ex run)
      qed
      from ex ty run step show "(\<exists>n. fs_extract w r p = Inr n \<and> nd_type n = Some ''link-broken'' \<and>
                nd_size n = map (\<lambda>k. (k, z)) size_keys \<and>
                fs_traverse (Suc d) w r p parent recursive h = Inr (length h, h @ [n])) \<and>
           (\<forall>path node state. p = opj path [node] \<and> node \<noteq> [] \<longrightarrow>
              (\<exists>state'. traverse_step (\<lambda>q par h'. fs_traverse (Suc d) w r q (Some par) recursive h')
                           w r path recursive node state = Inr state'))"
        by (auto simp: n_def)
    qed
  qed
  from ty annexed plain show ?thesis
    by blast
qed

end
